theory Spec2Isabelle
  imports Main
begin

section \<open>Tokens and the tokeniser interface\<close>

text \<open>
  Modelled from the spec: the token discriminants of \<^verbatim>\<open>css_parser_token::token_type\<close>
  (declared in css_tokeniser.hxx, which is not among the sources). The consumer only
  dispatches on the discriminant; the payload is opaque text.
\<close>

datatype token_type =
    eof_token | whitespace_token | comma_token | semicolon_token | delim_token
  | cdo_token | cdc_token
  | obrace_token | ebrace_token | osqbrace_token | esqbrace_token
  | ocurlbrace_token | ecurlbrace_token
  | ident_token | function_token | at_keyword_token | hash_token | string_token
  | url_token | number_token | percentage_token | dimension_token | unicode_range_token

datatype css_parser_token = Token (tok_type: token_type) (tok_value: string)

text \<open>
  Modelled from the spec: the error kinds of \<^verbatim>\<open>css_parse_error_type\<close> (declared in a
  header that is not among the sources). \<open>PARSE_ERROR_UNSET\<close> stands for the kind of a
  default-constructed \<^verbatim>\<open>css_parse_error\<close>, which only that header fixes.
\<close>

datatype css_parse_error_type =
    PARSE_ERROR_UNKNOWN_OPTION | PARSE_ERROR_INVALID_SYNTAX | PARSE_ERROR_BAD_NESTING
  | PARSE_ERROR_UNSET

datatype css_parse_error =
  Parse_Error (err_type: css_parse_error_type) (description: "string option")

section \<open>Consumed blocks\<close>

datatype parser_tag_type =
    css_top_block | css_qualified_rule | css_at_rule | css_simple_block
  | css_function | css_function_arg | css_component | css_eof_block

text \<open>
  The \<^verbatim>\<open>std::variant\<close> held by a consumed block: \<^verbatim>\<open>std::monostate\<close>, a vector of owned
  child blocks, a single token, or a \<^verbatim>\<open>css_function_block\<close> (header token and
  arguments). \<^verbatim>\<open>std::unique_ptr\<close> ownership makes the structure a tree.
\<close>

datatype css_consumed_block = Block (tag: parser_tag_type) (content: block_content)
  and block_content =
    Monostate
  | Blocks "css_consumed_block list"
  | Single css_parser_token
  | Function_Block css_parser_token "css_consumed_block list"

text \<open>
  Modelled from the spec: the two constructors of \<^verbatim>\<open>css_consumed_block\<close> (declared in
  css_parser.hxx, which is not among the sources). By the data model a top, qualified
  rule, at rule and simple block node holds a child list; a function node holds a
  function record around its header token; any other node built from a token holds
  that single token.
\<close>

definition new_block :: "parser_tag_type \<Rightarrow> css_consumed_block" where
  "new_block tg =
     (if tg = css_top_block \<or> tg = css_qualified_rule \<or> tg = css_at_rule \<or> tg = css_simple_block
      then Block tg (Blocks [])
      else Block tg Monostate)"

definition new_token_block :: "parser_tag_type \<Rightarrow> css_parser_token \<Rightarrow> css_consumed_block" where
  "new_token_block tg tok =
     (if tg = css_function then Block tg (Function_Block tok []) else Block tg (Single tok))"

text \<open>
  Modelled from the spec: \<^verbatim>\<open>get_blocks_or_empty\<close> (css_parser.hxx): the child list of a
  child-list node, the empty list for every other content shape.
\<close>

fun get_blocks_or_empty :: "css_consumed_block \<Rightarrow> css_consumed_block list" where
  "get_blocks_or_empty (Block tg (Blocks bs)) = bs"
| "get_blocks_or_empty (Block tg c) = []"

text \<open>
  \<^verbatim>\<open>attach_block\<close> and \<^verbatim>\<open>add_function_argument\<close> mutate the node and return a flag;
  here they return the flag and the node after the call.
\<close>

fun attach_block :: "css_consumed_block \<Rightarrow> css_consumed_block \<Rightarrow> bool \<times> css_consumed_block" where
  "attach_block b (Block tg Monostate) = (True, Block tg (Blocks [b]))"
| "attach_block b (Block tg (Blocks bs)) = (True, Block tg (Blocks (bs @ [b])))"
| "attach_block b (Block tg (Single t)) = (False, Block tg (Single t))"
| "attach_block b (Block tg (Function_Block f args)) = (False, Block tg (Function_Block f args))"

fun add_function_argument ::
  "css_consumed_block \<Rightarrow> css_consumed_block \<Rightarrow> bool \<times> css_consumed_block" where
  "add_function_argument b (Block tg (Function_Block f args)) =
     (True, Block tg (Function_Block f (args @ [b])))"
| "add_function_argument b (Block tg c) = (False, Block tg c)"

text \<open>The number of nodes of a consumed-block tree.\<close>

primrec nodes :: "css_consumed_block \<Rightarrow> nat"
  and nodes_content :: "block_content \<Rightarrow> nat" where
  "nodes (Block tg c) = 1 + nodes_content c"
| "nodes_content Monostate = 0"
| "nodes_content (Blocks bs) = sum_list (map nodes bs)"
| "nodes_content (Single t) = 0"
| "nodes_content (Function_Block f args) = sum_list (map nodes args)"

section \<open>Parser state\<close>

text \<open>
  The mutable members of \<^verbatim>\<open>css_parser\<close> that the consumers touch. The tokeniser is
  external; following its contract it is the sequence of tokens still to be emitted
  (\<open>input\<close>) and one pushback slot (\<open>backlog\<close>). Past the end of the input it emits
  \<open>eof_token\<close> forever.
\<close>

record css_parser =
  input :: "css_parser_token list"
  backlog :: "css_parser_token option"
  error :: css_parse_error
  rec_level :: int
  eof :: bool

definition max_rec :: int where
  "max_rec = 20"

definition new_parser :: "css_parser_token list \<Rightarrow> css_parser" where
  "new_parser toks =
     \<lparr>input = toks, backlog = None, error = Parse_Error PARSE_ERROR_UNSET None,
      rec_level = 0, eof = False\<rparr>"

definition next_token :: "css_parser \<Rightarrow> css_parser_token \<times> css_parser" where
  "next_token st =
     (case backlog st of
        Some t \<Rightarrow> (t, st\<lparr>backlog := None\<rparr>)
      | None \<Rightarrow>
          (case input st of
             [] \<Rightarrow> (Token eof_token [], st)
           | t # ts \<Rightarrow> (t, st\<lparr>input := ts\<rparr>)))"

definition pushback_token :: "css_parser_token \<Rightarrow> css_parser \<Rightarrow> css_parser" where
  "pushback_token t st = st\<lparr>backlog := Some t\<rparr>"

text \<open>The early return shared by the consumers when \<^verbatim>\<open>++rec_level > max_rec\<close>.\<close>

definition bad_nesting :: "css_parser \<Rightarrow> css_parser" where
  "bad_nesting st =
     st\<lparr>rec_level := rec_level st + 1,
        error := Parse_Error PARSE_ERROR_BAD_NESTING None\<rparr>"

definition enter :: "css_parser \<Rightarrow> css_parser" where
  "enter st = st\<lparr>rec_level := rec_level st + 1\<rparr>"

definition leave :: "css_parser \<Rightarrow> css_parser" where
  "leave st = st\<lparr>rec_level := rec_level st - 1\<rparr>"

text \<open>Tokens the tokeniser can still hand out before it reports the end of input.\<close>

definition remaining :: "css_parser \<Rightarrow> nat" where
  "remaining st = length (input st) + (case backlog st of None \<Rightarrow> 0 | Some t \<Rightarrow> 1)"

section \<open>The function consumer\<close>

text \<open>
  The \<^verbatim>\<open>while (ret && want_more && !eof)\<close> loop of \<^verbatim>\<open>function_consumer\<close>. \<^verbatim>\<open>ret\<close> is never
  cleared inside it, so the loop returns the state and the node only.
\<close>

function function_consumer_loop ::
  "css_parser \<Rightarrow> css_consumed_block \<Rightarrow> css_parser \<times> css_consumed_block" where
  "function_consumer_loop st tp =
     (if eof st then (st, tp)
      else
        (case next_token st of (next_tok, st1) \<Rightarrow>
          if tok_type next_tok = eof_token then (st1\<lparr>eof := True\<rparr>, tp)
          else if tok_type next_tok = whitespace_token then function_consumer_loop st1 tp
          else if tok_type next_tok = ebrace_token then (st1, tp)
          else if tok_type next_tok = comma_token \<or> tok_type next_tok = delim_token
                  \<or> tok_type next_tok = obrace_token
            then function_consumer_loop st1 tp
          else function_consumer_loop st1
                 (snd (add_function_argument (new_token_block css_function_arg next_tok) tp))))"
  by pat_completeness auto
termination
  by (relation "measure (\<lambda>(st, tp). remaining st)")
     (auto simp: next_token_def remaining_def split: option.splits list.splits)

declare function_consumer_loop.simps [simp del]

definition function_consumer ::
  "css_parser \<Rightarrow> css_consumed_block \<Rightarrow> bool \<times> css_parser \<times> css_consumed_block" where
  "function_consumer st tp =
     (if rec_level st + 1 > max_rec then (False, bad_nesting st, tp)
      else
        (case function_consumer_loop (enter st) tp of
           (st1, tp') \<Rightarrow> (True, leave st1, tp')))"

section \<open>Component values and simple blocks\<close>

text \<open>
  \<^verbatim>\<open>component_value_consumer\<close> and \<^verbatim>\<open>simple_block_consumer\<close> call each other, and each
  has a loop. The first argument bounds the depth of the calls; \<open>None\<close> means that the
  bound was too small. \<open>component_value_loop\<close> returns the \<^verbatim>\<open>block\<close> variable of the
  consumer (\<open>None\<close> for the null pointer); every branch that clears \<^verbatim>\<open>need_more\<close>, sets
  \<^verbatim>\<open>eof\<close> or clears \<^verbatim>\<open>ret\<close> leaves the loop.
\<close>

fun component_value_consumer ::
    "nat \<Rightarrow> css_parser \<Rightarrow> css_consumed_block \<Rightarrow> (bool \<times> css_parser \<times> css_consumed_block) option"
  and component_value_loop ::
    "nat \<Rightarrow> css_parser \<Rightarrow> (bool \<times> css_parser \<times> css_consumed_block option) option"
  and simple_block_consumer ::
    "nat \<Rightarrow> css_parser \<Rightarrow> css_consumed_block \<Rightarrow> token_type \<Rightarrow> bool \<Rightarrow>
       (bool \<times> css_parser \<times> css_consumed_block) option"
  and simple_block_loop ::
    "nat \<Rightarrow> css_parser \<Rightarrow> css_consumed_block \<Rightarrow> token_type \<Rightarrow>
       (bool \<times> css_parser \<times> css_consumed_block) option"
where
  "component_value_consumer 0 st tp = None"
| "component_value_consumer (Suc n) st tp =
     (if rec_level st + 1 > max_rec then Some (False, bad_nesting st, tp)
      else
        (case component_value_loop n (enter st) of
           None \<Rightarrow> None
         | Some (ret, st1, block) \<Rightarrow>
             (case block of
                Some b \<Rightarrow>
                  if ret then Some (ret, leave st1, snd (attach_block b tp))
                  else Some (ret, leave st1, tp)
              | None \<Rightarrow> Some (ret, leave st1, tp))))"
| "component_value_loop 0 st = None"
| "component_value_loop (Suc n) st =
     (if eof st then Some (True, st, None)
      else
        (case next_token st of (next_tok, st1) \<Rightarrow>
          if tok_type next_tok = eof_token then Some (True, st1\<lparr>eof := True\<rparr>, None)
          else if tok_type next_tok = ocurlbrace_token then
            (case simple_block_consumer n st1 (new_block css_simple_block) ecurlbrace_token True of
               None \<Rightarrow> None
             | Some (ret, st2, block) \<Rightarrow> Some (ret, st2, Some block))
          else if tok_type next_tok = obrace_token then
            (case simple_block_consumer n st1 (new_block css_simple_block) ebrace_token True of
               None \<Rightarrow> None
             | Some (ret, st2, block) \<Rightarrow> Some (ret, st2, Some block))
          else if tok_type next_tok = osqbrace_token then
            (case simple_block_consumer n st1 (new_block css_simple_block) esqbrace_token True of
               None \<Rightarrow> None
             | Some (ret, st2, block) \<Rightarrow> Some (ret, st2, Some block))
          else if tok_type next_tok = whitespace_token then component_value_loop n st1
          else if tok_type next_tok = function_token then
            (case function_consumer st1 (new_token_block css_function next_tok) of
               (ret, st2, block) \<Rightarrow> Some (ret, st2, Some block))
          else Some (True, st1, Some (new_token_block css_component next_tok))))"
| "simple_block_consumer 0 st tp expected_end consume_current = None"
| "simple_block_consumer (Suc n) st tp expected_end consume_current =
     (if \<not> consume_current \<and> rec_level st + 1 > max_rec then Some (False, bad_nesting st, tp)
      else if consume_current then simple_block_loop n st tp expected_end
      else
        (case simple_block_loop n (enter st) (new_block css_simple_block) expected_end of
           None \<Rightarrow> None
         | Some (ret, st1, block) \<Rightarrow>
             if ret then Some (ret, leave st1, snd (attach_block block tp))
             else Some (ret, leave st1, tp)))"
| "simple_block_loop 0 st target expected_end = None"
| "simple_block_loop (Suc n) st target expected_end =
     (if eof st then Some (True, st, target)
      else
        (case next_token st of (next_tok, st1) \<Rightarrow>
          if tok_type next_tok = expected_end then Some (True, st1, target)
          else if tok_type next_tok = eof_token then Some (True, st1\<lparr>eof := True\<rparr>, target)
          else if tok_type next_tok = whitespace_token
            then simple_block_loop n st1 target expected_end
          else
            (case component_value_consumer n (pushback_token next_tok st1) target of
               None \<Rightarrow> None
             | Some (ret, st2, target') \<Rightarrow>
                 if ret then simple_block_loop n st2 target' expected_end
                 else Some (False, st2, target'))))"

section \<open>Qualified rules and at-rules\<close>

text \<open>
  The loops of the two rule consumers. In the \<^verbatim>\<open>cdo_token\<close>/\<^verbatim>\<open>cdc_token\<close> case the
  source tests the tag of the caller's node and then does nothing on either branch.
\<close>

fun qualified_rule_loop ::
  "nat \<Rightarrow> css_parser \<Rightarrow> css_consumed_block \<Rightarrow> css_consumed_block \<Rightarrow>
     (bool \<times> css_parser \<times> css_consumed_block) option" where
  "qualified_rule_loop 0 st tp block = None"
| "qualified_rule_loop (Suc n) st tp block =
     (if eof st then Some (True, st, block)
      else
        (case next_token st of (next_tok, st1) \<Rightarrow>
          if tok_type next_tok = eof_token then Some (True, st1\<lparr>eof := True\<rparr>, block)
          else if tok_type next_tok = cdo_token \<or> tok_type next_tok = cdc_token then
            (if tag tp = css_top_block then qualified_rule_loop n st1 tp block
             else qualified_rule_loop n st1 tp block)
          else if tok_type next_tok = ocurlbrace_token
            then simple_block_consumer n st1 block ecurlbrace_token False
          else if tok_type next_tok = whitespace_token then qualified_rule_loop n st1 tp block
          else
            (case component_value_consumer n (pushback_token next_tok st1) block of
               None \<Rightarrow> None
             | Some (ret, st2, block') \<Rightarrow>
                 if ret then qualified_rule_loop n st2 tp block'
                 else Some (False, st2, block'))))"

fun qualified_rule_consumer ::
  "nat \<Rightarrow> css_parser \<Rightarrow> css_consumed_block \<Rightarrow> (bool \<times> css_parser \<times> css_consumed_block) option" where
  "qualified_rule_consumer 0 st tp = None"
| "qualified_rule_consumer (Suc n) st tp =
     (if rec_level st + 1 > max_rec then Some (False, bad_nesting st, tp)
      else
        (case qualified_rule_loop n (enter st) tp (new_block css_qualified_rule) of
           None \<Rightarrow> None
         | Some (ret, st1, block) \<Rightarrow>
             if ret then
               (if tag tp = css_top_block then Some (ret, leave st1, snd (attach_block block tp))
                else Some (ret, leave st1, tp))
             else Some (ret, leave st1, tp)))"

fun at_rule_loop ::
  "nat \<Rightarrow> css_parser \<Rightarrow> css_consumed_block \<Rightarrow> css_consumed_block \<Rightarrow>
     (bool \<times> css_parser \<times> css_consumed_block) option" where
  "at_rule_loop 0 st tp block = None"
| "at_rule_loop (Suc n) st tp block =
     (if eof st then Some (True, st, block)
      else
        (case next_token st of (next_tok, st1) \<Rightarrow>
          if tok_type next_tok = eof_token then Some (True, st1\<lparr>eof := True\<rparr>, block)
          else if tok_type next_tok = cdo_token \<or> tok_type next_tok = cdc_token then
            (if tag tp = css_top_block then at_rule_loop n st1 tp block
             else at_rule_loop n st1 tp block)
          else if tok_type next_tok = ocurlbrace_token
            then simple_block_consumer n st1 block ecurlbrace_token False
          else if tok_type next_tok = whitespace_token then at_rule_loop n st1 tp block
          else if tok_type next_tok = semicolon_token then Some (True, st1, block)
          else
            (case component_value_consumer n (pushback_token next_tok st1) block of
               None \<Rightarrow> None
             | Some (ret, st2, block') \<Rightarrow>
                 if ret then at_rule_loop n st2 tp block'
                 else Some (False, st2, block'))))"

fun at_rule_consumer ::
  "nat \<Rightarrow> css_parser \<Rightarrow> css_consumed_block \<Rightarrow> (bool \<times> css_parser \<times> css_consumed_block) option" where
  "at_rule_consumer 0 st tp = None"
| "at_rule_consumer (Suc n) st tp =
     (if rec_level st + 1 > max_rec then Some (False, bad_nesting st, tp)
      else
        (case at_rule_loop n (enter st) tp (new_block css_at_rule) of
           None \<Rightarrow> None
         | Some (ret, st1, block) \<Rightarrow>
             if ret then
               (if tag tp = css_top_block then Some (ret, leave st1, snd (attach_block block tp))
                else Some (ret, leave st1, tp))
             else Some (ret, leave st1, tp)))"

section \<open>The top-level driver\<close>

text \<open>
  The \<^verbatim>\<open>while (!eof && ret)\<close> loop of \<^verbatim>\<open>consume_css_blocks\<close>; it returns the parser and
  the top node.
\<close>

fun consume_css_blocks_loop ::
  "nat \<Rightarrow> css_parser \<Rightarrow> css_consumed_block \<Rightarrow> (css_parser \<times> css_consumed_block) option" where
  "consume_css_blocks_loop 0 st consumed_blocks = None"
| "consume_css_blocks_loop (Suc n) st consumed_blocks =
     (if eof st then Some (st, consumed_blocks)
      else
        (case next_token st of (next_tok, st1) \<Rightarrow>
          if tok_type next_tok = whitespace_token then consume_css_blocks_loop n st1 consumed_blocks
          else if tok_type next_tok = eof_token then Some (st1\<lparr>eof := True\<rparr>, consumed_blocks)
          else if tok_type next_tok = at_keyword_token then
            (case at_rule_consumer n (pushback_token next_tok st1) consumed_blocks of
               None \<Rightarrow> None
             | Some (ret, st2, consumed_blocks') \<Rightarrow>
                 if ret then consume_css_blocks_loop n st2 consumed_blocks'
                 else Some (st2, consumed_blocks'))
          else
            (case qualified_rule_consumer n (pushback_token next_tok st1) consumed_blocks of
               None \<Rightarrow> None
             | Some (ret, st2, consumed_blocks') \<Rightarrow>
                 if ret then consume_css_blocks_loop n st2 consumed_blocks'
                 else Some (st2, consumed_blocks'))))"

text \<open>
  The input is the token sequence the tokeniser produces for the source text. The depth
  bound handed to the loop is large enough for every input (\<open>consume_css_blocks_total\<close>
  below).
\<close>

definition consume_css_blocks ::
  "css_parser_token list \<Rightarrow> (css_parser \<times> css_consumed_block) option" where
  "consume_css_blocks toks =
     consume_css_blocks_loop (4 * length toks + 9) (new_parser toks) (new_block css_top_block)"

section \<open>Rule assembly and the public entry points\<close>

text \<open>
  \<^verbatim>\<open>process_selector_tokens\<close>, \<^verbatim>\<open>process_declaration_tokens\<close> and the style sheet live
  in other translation units, so the two parsers are parameters: \<open>sel\<close> maps the
  preamble blocks a rule offers through its token functor to the selectors found, and
  \<open>decl\<close> maps the blocks of the declaration body to the rules found (\<open>None\<close> for a null
  result). A style sheet is the sequence of \<^verbatim>\<open>add_selector_rule\<close> calls made on it.
\<close>

type_synonym ('s, 'd) css_style_sheet = "('s \<times> 'd list) list"

definition process_rule ::
  "(css_consumed_block list \<Rightarrow> 's list) \<Rightarrow> (css_consumed_block list \<Rightarrow> 'd list option) \<Rightarrow>
     css_consumed_block \<Rightarrow> ('s, 'd) css_style_sheet" where
  "process_rule sel decl rule =
     (let children = get_blocks_or_empty rule in
      if length children > 1 \<and> tag (hd children) = css_component then
        (case find (\<lambda>bl. tag bl = css_simple_block) children of
           None \<Rightarrow> []
         | Some simple_block \<Rightarrow>
             (let selectors_vec = sel (takeWhile (\<lambda>bl. tag bl \<noteq> css_simple_block) children) in
              if length selectors_vec > 0 then
                (case decl (get_blocks_or_empty simple_block) of
                   None \<Rightarrow> []
                 | Some rules \<Rightarrow>
                     if rules \<noteq> [] then map (\<lambda>selector. (selector, rules)) selectors_vec
                     else [])
              else []))
      else [])"

text \<open>
  \<^verbatim>\<open>consume_input\<close> returns its flag together with the parser's \<^verbatim>\<open>style_object\<close> and the
  parser state left by the consumer.
\<close>

definition consume_input ::
  "(css_consumed_block list \<Rightarrow> 's list) \<Rightarrow> (css_consumed_block list \<Rightarrow> 'd list option) \<Rightarrow>
     css_parser_token list \<Rightarrow> (bool \<times> ('s, 'd) css_style_sheet option \<times> css_parser) option" where
  "consume_input sel decl toks =
     (case consume_css_blocks toks of
        None \<Rightarrow> None
      | Some (st, consumed_blocks) \<Rightarrow>
          (let rules = get_blocks_or_empty consumed_blocks in
           if rules = [] then Some (False, None, st)
           else Some (True, Some (concat (map (process_rule sel decl) rules)), st)))"

definition get_object_maybe ::
  "('s, 'd) css_style_sheet option \<Rightarrow> css_parser \<Rightarrow> css_parse_error + ('s, 'd) css_style_sheet" where
  "get_object_maybe style_object st =
     (case style_object of Some sheet \<Rightarrow> Inr sheet | None \<Rightarrow> Inl (error st))"

definition parse_css ::
  "(css_consumed_block list \<Rightarrow> 's list) \<Rightarrow> (css_consumed_block list \<Rightarrow> 'd list option) \<Rightarrow>
     css_parser_token list \<Rightarrow> (css_parse_error + ('s, 'd) css_style_sheet) option" where
  "parse_css sel decl toks =
     (case consume_input sel decl toks of
        None \<Rightarrow> None
      | Some (ok, style_object, st) \<Rightarrow>
          if ok then Some (get_object_maybe style_object st)
          else Some (Inl (Parse_Error PARSE_ERROR_INVALID_SYNTAX (Some ''cannot parse input''))))"

text \<open>
  \<^verbatim>\<open>get_selectors_parser_functor\<close> dereferences \<^verbatim>\<open>rules.begin()\<close> unchecked. The functor
  it returns walks the children of that first rule, so the model returns those children;
  the inner \<open>None\<close> is the dereference of the end iterator of an empty rule list.
\<close>

definition first_rule :: "css_consumed_block list \<Rightarrow> css_consumed_block option" where
  "first_rule rules = (case rules of [] \<Rightarrow> None | r # rs \<Rightarrow> Some r)"

definition get_selectors_parser_functor ::
  "css_parser_token list \<Rightarrow> css_consumed_block list option option" where
  "get_selectors_parser_functor toks =
     (case consume_css_blocks toks of
        None \<Rightarrow> None
      | Some (st, consumed_blocks) \<Rightarrow>
          Some (case first_rule (get_blocks_or_empty consumed_blocks) of
                  None \<Rightarrow> None
                | Some rule \<Rightarrow> Some (get_blocks_or_empty rule)))"

section \<open>Auxiliary notions for the proofs\<close>

text \<open>
  The tokens the tokeniser will emit before it reports the end of input: the pushback
  slot first, then the input.
\<close>

definition stream :: "css_parser \<Rightarrow> css_parser_token list" where
  "stream st = (case backlog st of None \<Rightarrow> [] | Some t \<Rightarrow> [t]) @ input st"

text \<open>
  \<open>budget\<close> is the number of \<^verbatim>\<open>next_token\<close> calls that can still happen before every
  loop has stopped: one per remaining token, and one for the end of input unless the
  \<^verbatim>\<open>eof\<close> flag is already set.
\<close>

definition budget :: "css_parser \<Rightarrow> nat" where
  "budget st = remaining st + (if eof st then 0 else 1)"

text \<open>A call returned, it did not add tokens, and a successful call consumed something.\<close>

definition progress :: "css_parser \<Rightarrow> (bool \<times> css_parser \<times> 'a) option \<Rightarrow> bool" where
  "progress st r =
     (case r of
        None \<Rightarrow> False
      | Some (ret, st', x) \<Rightarrow>
          budget st' \<le> budget st \<and> (if ret \<and> \<not> eof st then budget st' < budget st else True))"

text \<open>
  What a call does to the recursion counter and the recorded error, by its result:
  a successful call restores both, a failed call leaves the counter one higher and the
  error set to \<open>PARSE_ERROR_BAD_NESTING\<close>.
\<close>

definition frame :: "css_parser \<Rightarrow> bool \<Rightarrow> css_parser \<Rightarrow> bool" where
  "frame st ret st' =
     (if ret then rec_level st' = rec_level st \<and> error st' = error st
      else rec_level st' = rec_level st + 1
           \<and> error st' = Parse_Error PARSE_ERROR_BAD_NESTING None)"

text \<open>Attaching a sequence of blocks to a node, one \<^verbatim>\<open>attach_block\<close> call after the other.\<close>

fun attach_all :: "css_consumed_block list \<Rightarrow> css_consumed_block \<Rightarrow> css_consumed_block" where
  "attach_all [] tp = tp"
| "attach_all (b # bs) tp = attach_all bs (snd (attach_block b tp))"

text \<open>
  The function consumer as the specification words it, on the token sequence it is
  given: \<open>function_arguments\<close> walks the tokens up to the first closing parenthesis or
  end-of-file token, drops whitespace, commas, delimiters and opening parentheses, and
  keeps every other token; \<open>after_function\<close> is what follows the terminator, and
  \<open>ends_at_eof\<close> tells whether the walk stopped at the end of input.
\<close>

fun function_arguments :: "css_parser_token list \<Rightarrow> css_parser_token list" where
  "function_arguments [] = []"
| "function_arguments (t # ts) =
     (if tok_type t = ebrace_token \<or> tok_type t = eof_token then []
      else if tok_type t = whitespace_token \<or> tok_type t = comma_token
              \<or> tok_type t = delim_token \<or> tok_type t = obrace_token
        then function_arguments ts
      else t # function_arguments ts)"

fun after_function :: "css_parser_token list \<Rightarrow> css_parser_token list" where
  "after_function [] = []"
| "after_function (t # ts) =
     (if tok_type t = ebrace_token \<or> tok_type t = eof_token then ts else after_function ts)"

fun ends_at_eof :: "css_parser_token list \<Rightarrow> bool" where
  "ends_at_eof [] = True"
| "ends_at_eof (t # ts) =
     (if tok_type t = eof_token then True
      else if tok_type t = ebrace_token then False
      else ends_at_eof ts)"

text \<open>
  Node accounting. A rule or a block that ended before the end of input consumed its
  terminator (\<^verbatim>\<open>}\<close> or \<^verbatim>\<open>;\<close>), a token that produced no node: \<open>spare\<close> is that one token.
  \<open>nodes_opt\<close> counts the nodes of the \<^verbatim>\<open>block\<close> variable of the component-value consumer.
\<close>

definition spare :: "bool \<Rightarrow> css_parser \<Rightarrow> nat" where
  "spare ret st = (if ret \<and> \<not> eof st then 1 else 0)"

definition nodes_opt :: "css_consumed_block option \<Rightarrow> nat" where
  "nodes_opt bo = (case bo of None \<Rightarrow> 0 | Some b \<Rightarrow> nodes b)"

text \<open>
  The components of a simple block as the specification words its consumer: loop until
  the end of input or until the next token is \<open>expected_end\<close> (consumed and discarded),
  skip whitespace, and for anything else push the token back and invoke the
  component-value consumer. \<open>consumed_components\<close> is the sequence of nodes these
  invocations produce, each one observed on an empty block of its own, together with
  the result flag and the parser state at the end. It knows no target block, allocates
  no simple block and has no counter bookkeeping of its own.
\<close>

fun consumed_components ::
  "nat \<Rightarrow> css_parser \<Rightarrow> token_type \<Rightarrow> (bool \<times> css_parser \<times> css_consumed_block list) option" where
  "consumed_components 0 st expected_end = None"
| "consumed_components (Suc n) st expected_end =
     (if eof st then Some (True, st, [])
      else
        (case next_token st of (next_tok, st1) \<Rightarrow>
          if tok_type next_tok = expected_end then Some (True, st1, [])
          else if tok_type next_tok = eof_token then Some (True, st1\<lparr>eof := True\<rparr>, [])
          else if tok_type next_tok = whitespace_token
            then consumed_components n st1 expected_end
          else
            (case component_value_consumer n (pushback_token next_tok st1)
                    (Block css_simple_block (Blocks [])) of
               None \<Rightarrow> None
             | Some (ret, st2, produced) \<Rightarrow>
                 if ret then
                   (case consumed_components n st2 expected_end of
                      None \<Rightarrow> None
                    | Some (ret', st', bs) \<Rightarrow> Some (ret', st', get_blocks_or_empty produced @ bs))
                 else Some (False, st2, []))))"

section \<open>Every call returns\<close>


lemma budget_enter [simp]: "budget (enter st) = budget st" "eof (enter st) = eof st"
  by (simp_all add: budget_def enter_def remaining_def)

lemma budget_leave [simp]: "budget (leave st) = budget st" "eof (leave st) = eof st"
  by (simp_all add: budget_def leave_def remaining_def)

lemma budget_bad_nesting [simp]: "budget (bad_nesting st) = budget st"
  by (simp add: budget_def bad_nesting_def remaining_def)

lemma next_token_real:
  assumes "next_token st = (t, st1)" "tok_type t \<noteq> eof_token"
  shows "budget st1 + 1 = budget st" "eof st1 = eof st" "backlog st1 = None"
    "budget (pushback_token t st1) = budget st" "eof (pushback_token t st1) = eof st"
  using assms
  by (auto simp: next_token_def budget_def remaining_def pushback_token_def
           split: option.splits list.splits)

lemma next_token_eof:
  assumes "next_token st = (t, st1)" "\<not> eof st"
  shows "budget (st1\<lparr>eof := True\<rparr>) < budget st"
  using assms
  by (auto simp: next_token_def budget_def remaining_def split: option.splits list.splits)

lemma function_consumer_loop_budget:
  "function_consumer_loop st tp = (st', tp') \<Longrightarrow>
     budget st' \<le> budget st \<and> (\<not> eof st \<longrightarrow> budget st' < budget st)"
proof (induction st tp arbitrary: st' tp' rule: function_consumer_loop.induct)
  case (1 st tp)
  show ?case
  proof (cases "eof st")
    case True
    with "1.prems" show ?thesis by (simp add: function_consumer_loop.simps [of st])
  next
    case False
    obtain t st1 where nt: "next_token st = (t, st1)" by (cases "next_token st")
    show ?thesis
    proof (cases "tok_type t = eof_token")
      case True
      with "1.prems" False nt next_token_eof [OF nt False] show ?thesis
        by (auto simp: function_consumer_loop.simps [of st])
    next
      case ne: False
      note r = next_token_real [OF nt ne]
      have "budget st' \<le> budget st1"
        using "1.prems" False nt ne "1.IH" [OF False nt [symmetric]]
        by (auto simp: function_consumer_loop.simps [of st] split: if_splits)
      with r False show ?thesis by simp
    qed
  qed
qed

lemma function_consumer_progress: "progress st (Some (function_consumer st tp))"
  using function_consumer_loop_budget [of "enter st" tp]
  by (auto simp: progress_def function_consumer_def split: prod.splits)



lemma progressI:
  "budget st' \<le> budget st \<Longrightarrow> (ret \<Longrightarrow> \<not> eof st \<Longrightarrow> budget st' < budget st) \<Longrightarrow>
     progress st (Some (ret, st', x))"
  by (auto simp: progress_def)

lemma progressE:
  assumes "progress st r"
  obtains ret st' x where "r = Some (ret, st', x)" "budget st' \<le> budget st"
    "ret \<Longrightarrow> \<not> eof st \<Longrightarrow> budget st' < budget st"
  using assms by (auto simp: progress_def split: option.splits)

lemma component_value_loop_step:
  assumes sbc: "\<And>st tp e cc. 4 * budget st + 4 \<le> n \<Longrightarrow> e \<noteq> eof_token \<Longrightarrow>
      progress st (simple_block_consumer n st tp e cc)"
    and loop: "\<And>st. 4 * budget st + 1 \<le> n \<Longrightarrow> progress st (component_value_loop n st)"
    and n: "4 * budget st + 1 \<le> Suc n"
  shows "progress st (component_value_loop (Suc n) st)"
proof (cases "eof st")
  case True
  then show ?thesis by (simp add: progress_def)
next
  case False
  obtain t st1 where nt: "next_token st = (t, st1)" by (cases "next_token st")
  show ?thesis
  proof (cases "tok_type t = eof_token")
    case True
    with False nt next_token_eof [OF nt False] show ?thesis
      by (simp add: progress_def)
  next
    case ne: False
    note r = next_token_real [OF nt ne]
    from r(1) n have n1: "4 * budget st1 + 4 \<le> n" by arith
    have weaken: "progress st (Some (ret, st2, x))" if "budget st2 \<le> budget st1" for ret st2 and x :: "css_consumed_block option"
      using that r(1) by (intro progressI) arith+
    have via_sbc: "progress st (case simple_block_consumer n st1 tp e True of None \<Rightarrow> None
             | Some (ret, st2, block) \<Rightarrow> Some (ret, st2, Some block))"
      if "e \<noteq> eof_token" for tp e
      using sbc [OF n1 that, of tp True] weaken by (auto elim!: progressE)
    have via_loop: "progress st (component_value_loop n st1)"
      using loop [of st1] n1 r(1) by (auto elim!: progressE intro!: progressI)
    have via_fun: "progress st (case function_consumer st1 tp of (ret, st2, block) \<Rightarrow> Some (ret, st2, Some block))" for tp
      using function_consumer_progress [of st1 tp] weaken by (auto elim!: progressE split: prod.splits)
    have via_tok: "progress st (Some (True, st1, Some b))" for b :: css_consumed_block
      by (rule weaken) simp
    show ?thesis
      using False nt ne via_sbc via_loop via_fun via_tok by simp
  qed
qed


lemma component_value_consumer_step:
  assumes loop: "\<And>st. 4 * budget st + 1 \<le> n \<Longrightarrow> progress st (component_value_loop n st)"
    and n: "4 * budget st + 2 \<le> Suc n"
  shows "progress st (component_value_consumer (Suc n) st tp)"
proof -
  from n have "4 * budget (enter st) + 1 \<le> n" by simp
  from loop [OF this] show ?thesis
    by (auto elim!: progressE intro!: progressI split: option.splits)
qed

lemma simple_block_loop_step:
  assumes cvc: "\<And>st tp. 4 * budget st + 2 \<le> n \<Longrightarrow> progress st (component_value_consumer n st tp)"
    and loop: "\<And>st tp. 4 * budget st + 3 \<le> n \<Longrightarrow> progress st (simple_block_loop n st tp e)"
    and n: "4 * budget st + 3 \<le> Suc n"
    and e: "e \<noteq> eof_token"
  shows "progress st (simple_block_loop (Suc n) st tp e)"
proof (cases "eof st")
  case True
  then show ?thesis by (simp add: progress_def)
next
  case False
  obtain t st1 where nt: "next_token st = (t, st1)" by (cases "next_token st")
  show ?thesis
  proof (cases "tok_type t = eof_token")
    case True
    from next_token_eof [OF nt False] have lt: "budget (st1\<lparr>eof := True\<rparr>) < budget st" .
    with True False nt lt e show ?thesis
      by (simp add: progress_def)
  next
    case ne: False
    note r = next_token_real [OF nt ne]
    have via_loop: "progress st (simple_block_loop n st1 tp e)"
      using loop [of st1 tp] n r(1) by (auto elim!: progressE intro!: progressI)
    have via_end: "progress st (Some (True, st1, tp))"
      using r(1) by (intro progressI) arith+
    have via_cvc: "progress st (case component_value_consumer n (pushback_token t st1) tp of
               None \<Rightarrow> None
             | Some (ret, st2, target') \<Rightarrow>
                 if ret then simple_block_loop n st2 target' e
                 else Some (False, st2, target'))"
    proof -
      from n r(4) have "4 * budget (pushback_token t st1) + 2 \<le> n" by simp
      from cvc [OF this, of tp] obtain ret st2 tp2 where
        c: "component_value_consumer n (pushback_token t st1) tp = Some (ret, st2, tp2)"
        and le: "budget st2 \<le> budget st"
        and lt: "ret \<Longrightarrow> budget st2 < budget st"
        using r(4,5) False by (auto elim!: progressE)
      show ?thesis
      proof (cases ret)
        case True
        from lt [OF True] n have "4 * budget st2 + 3 \<le> n" by arith
        from loop [OF this, of tp2] lt [OF True] c True show ?thesis
          by (auto elim!: progressE intro!: progressI)
      next
        case False
        with c le show ?thesis by (simp add: progress_def)
      qed
    qed
    show ?thesis
      using False nt ne via_loop via_end via_cvc by simp
  qed
qed

lemma simple_block_consumer_step:
  assumes loop: "\<And>st tp. 4 * budget st + 3 \<le> n \<Longrightarrow> progress st (simple_block_loop n st tp e)"
    and n: "4 * budget st + 4 \<le> Suc n"
  shows "progress st (simple_block_consumer (Suc n) st tp e cc)"
proof -
  from n have a: "4 * budget (enter st) + 3 \<le> n" and b: "4 * budget st + 3 \<le> n" by simp_all
  from loop [OF a, of "new_block css_simple_block"] loop [OF b, of tp] show ?thesis
    by (auto elim!: progressE intro!: progressI split: option.splits)
qed

lemma consumers_progress:
  "(4 * budget st + 2 \<le> n \<longrightarrow> progress st (component_value_consumer n st tp))
   \<and> (4 * budget st + 1 \<le> n \<longrightarrow> progress st (component_value_loop n st))
   \<and> (4 * budget st + 4 \<le> n \<longrightarrow> e \<noteq> eof_token \<longrightarrow> progress st (simple_block_consumer n st tp e cc))
   \<and> (4 * budget st + 3 \<le> n \<longrightarrow> e \<noteq> eof_token \<longrightarrow> progress st (simple_block_loop n st tp e))"
proof (induction n arbitrary: st tp e cc)
  case 0
  show ?case by simp
next
  case (Suc n)
  show ?case
    using component_value_consumer_step [of n st tp] component_value_loop_step [of n st]
      simple_block_consumer_step [of n e st tp cc] simple_block_loop_step [of n e st tp] Suc
    by blast
qed



lemma component_value_consumer_progress:
  "4 * budget st + 2 \<le> n \<Longrightarrow> progress st (component_value_consumer n st tp)"
  using consumers_progress [of st n tp ecurlbrace_token True] by blast

lemma simple_block_consumer_progress:
  "4 * budget st + 4 \<le> n \<Longrightarrow> e \<noteq> eof_token \<Longrightarrow> progress st (simple_block_consumer n st tp e cc)"
  using consumers_progress [of st n tp e cc] by blast

lemma qualified_rule_loop_progress:
  "4 * budget st + 3 \<le> n \<Longrightarrow> progress st (qualified_rule_loop n st tp block)"
proof (induction n arbitrary: st block)
  case 0
  then show ?case by simp
next
  case (Suc n)
  show ?case
  proof (cases "eof st")
    case True
    then show ?thesis by (simp add: progress_def)
  next
    case False
    obtain t st1 where nt: "next_token st = (t, st1)" by (cases "next_token st")
    show ?thesis
    proof (cases "tok_type t = eof_token")
      case True
      with False nt next_token_eof [OF nt False] show ?thesis
        by (simp add: progress_def)
    next
      case ne: False
      note r = next_token_real [OF nt ne]
      have via_loop: "progress st (qualified_rule_loop n st1 tp block)"
        using Suc.IH [of st1 block] Suc.prems r(1) by (auto elim!: progressE intro!: progressI)
      have via_sbc: "progress st (simple_block_consumer n st1 block ecurlbrace_token False)"
        using simple_block_consumer_progress [of st1 n ecurlbrace_token block False] Suc.prems r(1)
        by (auto elim!: progressE intro!: progressI)
      have via_cvc: "progress st (case component_value_consumer n (pushback_token t st1) block of
                 None \<Rightarrow> None
               | Some (ret, st2, block') \<Rightarrow>
                   if ret then qualified_rule_loop n st2 tp block'
                   else Some (False, st2, block'))"
      proof -
        from Suc.prems r(4) have "4 * budget (pushback_token t st1) + 2 \<le> n" by simp
        from component_value_consumer_progress [OF this, of block] obtain ret st2 tp2 where
          c: "component_value_consumer n (pushback_token t st1) block = Some (ret, st2, tp2)"
          and le: "budget st2 \<le> budget st"
          and lt: "ret \<Longrightarrow> budget st2 < budget st"
          using r(4,5) False by (auto elim!: progressE)
        show ?thesis
        proof (cases ret)
          case True
          from lt [OF True] Suc.prems have "4 * budget st2 + 3 \<le> n" by arith
          from Suc.IH [OF this, of tp2] lt [OF True] c True show ?thesis
            by (auto elim!: progressE intro!: progressI)
        next
          case False
          with c le show ?thesis by (simp add: progress_def)
        qed
      qed
      show ?thesis
        using False nt ne via_loop via_sbc via_cvc by simp
    qed
  qed
qed

lemma at_rule_loop_progress:
  "4 * budget st + 3 \<le> n \<Longrightarrow> progress st (at_rule_loop n st tp block)"
proof (induction n arbitrary: st block)
  case 0
  then show ?case by simp
next
  case (Suc n)
  show ?case
  proof (cases "eof st")
    case True
    then show ?thesis by (simp add: progress_def)
  next
    case False
    obtain t st1 where nt: "next_token st = (t, st1)" by (cases "next_token st")
    show ?thesis
    proof (cases "tok_type t = eof_token")
      case True
      with False nt next_token_eof [OF nt False] show ?thesis
        by (simp add: progress_def)
    next
      case ne: False
      note r = next_token_real [OF nt ne]
      have via_loop: "progress st (at_rule_loop n st1 tp block)"
        using Suc.IH [of st1 block] Suc.prems r(1) by (auto elim!: progressE intro!: progressI)
      have via_sbc: "progress st (simple_block_consumer n st1 block ecurlbrace_token False)"
        using simple_block_consumer_progress [of st1 n ecurlbrace_token block False] Suc.prems r(1)
        by (auto elim!: progressE intro!: progressI)
      have via_end: "progress st (Some (True, st1, block))"
        using r(1) by (intro progressI) arith+
      have via_cvc: "progress st (case component_value_consumer n (pushback_token t st1) block of
                 None \<Rightarrow> None
               | Some (ret, st2, block') \<Rightarrow>
                   if ret then at_rule_loop n st2 tp block'
                   else Some (False, st2, block'))"
      proof -
        from Suc.prems r(4) have "4 * budget (pushback_token t st1) + 2 \<le> n" by simp
        from component_value_consumer_progress [OF this, of block] obtain ret st2 tp2 where
          c: "component_value_consumer n (pushback_token t st1) block = Some (ret, st2, tp2)"
          and le: "budget st2 \<le> budget st"
          and lt: "ret \<Longrightarrow> budget st2 < budget st"
          using r(4,5) False by (auto elim!: progressE)
        show ?thesis
        proof (cases ret)
          case True
          from lt [OF True] Suc.prems have "4 * budget st2 + 3 \<le> n" by arith
          from Suc.IH [OF this, of tp2] lt [OF True] c True show ?thesis
            by (auto elim!: progressE intro!: progressI)
        next
          case False
          with c le show ?thesis by (simp add: progress_def)
        qed
      qed
      show ?thesis
        using False nt ne via_loop via_sbc via_cvc via_end by simp
    qed
  qed
qed

lemma qualified_rule_consumer_progress:
  assumes "4 * budget st + 4 \<le> n"
  shows "progress st (qualified_rule_consumer n st tp)"
proof -
  obtain m where n: "n = Suc m" using assms by (cases n) auto
  with assms have "4 * budget (enter st) + 3 \<le> m" by simp
  from qualified_rule_loop_progress [OF this, of tp "new_block css_qualified_rule"] show ?thesis
    unfolding n by (auto elim!: progressE intro!: progressI split: option.splits)
qed

lemma at_rule_consumer_progress:
  assumes "4 * budget st + 4 \<le> n"
  shows "progress st (at_rule_consumer n st tp)"
proof -
  obtain m where n: "n = Suc m" using assms by (cases n) auto
  with assms have "4 * budget (enter st) + 3 \<le> m" by simp
  from at_rule_loop_progress [OF this, of tp "new_block css_at_rule"] show ?thesis
    unfolding n by (auto elim!: progressE intro!: progressI split: option.splits)
qed

lemma consume_css_blocks_loop_total:
  "4 * budget st + 5 \<le> n \<Longrightarrow> \<exists>st' tp'. consume_css_blocks_loop n st tp = Some (st', tp')"
proof (induction n arbitrary: st tp)
  case 0
  then show ?case by simp
next
  case (Suc n)
  show ?case
  proof (cases "eof st")
    case True
    then show ?thesis by simp
  next
    case False
    obtain t st1 where nt: "next_token st = (t, st1)" by (cases "next_token st")
    show ?thesis
    proof (cases "tok_type t = eof_token")
      case True
      with False nt show ?thesis by simp
    next
      case ne: False
      note r = next_token_real [OF nt ne]
      have via_loop: "\<exists>st' tp'. consume_css_blocks_loop n st1 tp = Some (st', tp')"
        using Suc.IH [of st1 tp] Suc.prems r(1) by auto
      from Suc.prems r(4) have n4: "4 * budget (pushback_token t st1) + 4 \<le> n" by simp
      have cont: "\<exists>st' tp'. (if ret then consume_css_blocks_loop n st2 tp2 else Some (st2, tp2)) = Some (st', tp')"
        if "ret \<Longrightarrow> budget st2 < budget st" for ret st2 tp2
      proof (cases ret)
        case True
        from that [OF True] Suc.prems have "4 * budget st2 + 5 \<le> n" by arith
        from Suc.IH [OF this, of tp2] True show ?thesis by simp
      next
        case False
        then show ?thesis by simp
      qed
      have via_at: "\<exists>st' tp'. (case at_rule_consumer n (pushback_token t st1) tp of
               None \<Rightarrow> None
             | Some (ret, st2, consumed_blocks') \<Rightarrow>
                 if ret then consume_css_blocks_loop n st2 consumed_blocks'
                 else Some (st2, consumed_blocks')) = Some (st', tp')"
        using at_rule_consumer_progress [OF n4, of tp] cont r(4,5) False
        by (auto elim!: progressE)
      have via_q: "\<exists>st' tp'. (case qualified_rule_consumer n (pushback_token t st1) tp of
               None \<Rightarrow> None
             | Some (ret, st2, consumed_blocks') \<Rightarrow>
                 if ret then consume_css_blocks_loop n st2 consumed_blocks'
                 else Some (st2, consumed_blocks')) = Some (st', tp')"
        using qualified_rule_consumer_progress [OF n4, of tp] cont r(4,5) False
        by (auto elim!: progressE)
      show ?thesis
        using False nt ne via_loop via_at via_q by simp
    qed
  qed
qed

lemma budget_new_parser: "budget (new_parser toks) = length toks + 1"
  by (simp add: budget_def new_parser_def remaining_def)

lemma consume_css_blocks_total: "\<exists>st tp. consume_css_blocks toks = Some (st, tp)"
  unfolding consume_css_blocks_def
  by (rule consume_css_blocks_loop_total) (simp add: budget_new_parser)



lemma component_value_consumer_cases:
  assumes "component_value_consumer n st tp = Some (ret, st', tp')"
  obtains
    (guard) "rec_level st + 1 > max_rec" "\<not> ret" "st' = bad_nesting st" "tp' = tp"
  | (run) m st1 bo where "n = Suc m" "\<not> rec_level st + 1 > max_rec"
      "component_value_loop m (enter st) = Some (ret, st1, bo)" "st' = leave st1"
      "tp' = (case bo of Some b \<Rightarrow> if ret then snd (attach_block b tp) else tp | None \<Rightarrow> tp)"
  using assms by (cases n) (auto split: if_splits option.splits)

lemma component_value_loop_cases:
  assumes "component_value_loop n st = Some (ret, st', bo)"
  obtains
    (flag) "eof st" "ret" "st' = st" "bo = None"
  | (eof) t st1 where "\<not> eof st" "next_token st = (t, st1)" "tok_type t = eof_token"
      "ret" "st' = st1\<lparr>eof := True\<rparr>" "bo = None"
  | (block) m t st1 e blk where "n = Suc m" "\<not> eof st" "next_token st = (t, st1)"
      "tok_type t \<noteq> eof_token"
      "(tok_type t, e) \<in> {(ocurlbrace_token, ecurlbrace_token), (obrace_token, ebrace_token),
         (osqbrace_token, esqbrace_token)}"
      "simple_block_consumer m st1 (new_block css_simple_block) e True = Some (ret, st', blk)"
      "bo = Some blk"
  | (ws) m t st1 where "n = Suc m" "\<not> eof st" "next_token st = (t, st1)"
      "tok_type t \<noteq> eof_token" "tok_type t = whitespace_token"
      "component_value_loop m st1 = Some (ret, st', bo)"
  | (func) t st1 blk where "\<not> eof st" "next_token st = (t, st1)"
      "tok_type t \<noteq> eof_token" "tok_type t = function_token"
      "function_consumer st1 (new_token_block css_function t) = (ret, st', blk)" "bo = Some blk"
  | (comp) t st1 where "\<not> eof st" "next_token st = (t, st1)" "tok_type t \<noteq> eof_token"
      "tok_type t \<notin> {ocurlbrace_token, obrace_token, osqbrace_token, whitespace_token, function_token}"
      "ret" "st' = st1" "bo = Some (new_token_block css_component t)"
proof (cases n)
  case 0
  with assms show ?thesis by simp
next
  case (Suc m)
  obtain t st1 where nt: "next_token st = (t, st1)" by (cases "next_token st")
  show ?thesis
    using assms nt flag eof block [of m t st1] ws [of m t st1] func [of t st1] comp [of t st1]
    unfolding Suc
    by (simp split: if_splits option.splits prod.splits)
qed

lemma simple_block_consumer_cases:
  assumes "simple_block_consumer n st tp e cc = Some (ret, st', tp')"
  obtains
    (guard) "\<not> cc" "rec_level st + 1 > max_rec" "\<not> ret" "st' = bad_nesting st" "tp' = tp"
  | (current) m where "n = Suc m" "cc" "simple_block_loop m st tp e = Some (ret, st', tp')"
  | (fresh) m st1 blk where "n = Suc m" "\<not> cc" "\<not> rec_level st + 1 > max_rec"
      "simple_block_loop m (enter st) (new_block css_simple_block) e = Some (ret, st1, blk)"
      "st' = leave st1" "tp' = (if ret then snd (attach_block blk tp) else tp)"
  using assms by (cases n) (auto split: if_splits option.splits)

lemma simple_block_loop_cases:
  assumes "simple_block_loop n st tp e = Some (ret, st', tp')"
  obtains
    (flag) "eof st" "ret" "st' = st" "tp' = tp"
  | (closed) t st1 where "\<not> eof st" "next_token st = (t, st1)" "tok_type t = e"
      "ret" "st' = st1" "tp' = tp"
  | (eof) t st1 where "\<not> eof st" "next_token st = (t, st1)" "tok_type t = eof_token"
      "ret" "st' = st1\<lparr>eof := True\<rparr>" "tp' = tp"
  | (ws) m t st1 where "n = Suc m" "\<not> eof st" "next_token st = (t, st1)"
      "tok_type t \<noteq> eof_token" "tok_type t = whitespace_token"
      "simple_block_loop m st1 tp e = Some (ret, st', tp')"
  | (failed) m t st1 where "n = Suc m" "\<not> eof st" "next_token st = (t, st1)"
      "tok_type t \<noteq> eof_token" "\<not> ret"
      "component_value_consumer m (pushback_token t st1) tp = Some (False, st', tp')"
  | (more) m t st1 st2 tp2 where "n = Suc m" "\<not> eof st" "next_token st = (t, st1)"
      "tok_type t \<noteq> eof_token"
      "component_value_consumer m (pushback_token t st1) tp = Some (True, st2, tp2)"
      "simple_block_loop m st2 tp2 e = Some (ret, st', tp')"
proof (cases n)
  case 0
  with assms show ?thesis by simp
next
  case (Suc m)
  obtain t st1 where nt: "next_token st = (t, st1)" by (cases "next_token st")
  show ?thesis
    using assms nt flag closed [of t st1] eof [of t st1] ws [of m t st1] failed [of m t st1]
      more [of m t st1]
    unfolding Suc
    by (simp split: if_splits option.splits prod.splits)
qed



lemma next_token_frame:
  assumes "next_token st = (t, st1)"
  shows "rec_level st1 = rec_level st" "error st1 = error st"
  using assms by (auto simp: next_token_def split: option.splits list.splits)

lemma frame_refl [simp]: "frame st True st"
  by (simp add: frame_def)

lemma frame_next:
  assumes "next_token st = (t, st1)"
  shows "frame st1 ret st' \<Longrightarrow> frame st ret st'"
    "frame (pushback_token t st1) ret st' \<Longrightarrow> frame st ret st'"
    "frame st True st1" "frame st True (st1\<lparr>eof := True\<rparr>)"
  using next_token_frame [OF assms] by (auto simp: frame_def pushback_token_def)

lemma frame_trans: "frame st True st1 \<Longrightarrow> frame st1 ret st2 \<Longrightarrow> frame st ret st2"
  by (auto simp: frame_def)

lemma frame_enter_leave: "frame (enter st) ret st1 \<Longrightarrow> frame st ret (leave st1)"
  by (auto simp: frame_def enter_def leave_def)

lemma frame_bad_nesting [simp]: "frame st False (bad_nesting st)"
  by (simp add: frame_def bad_nesting_def)

lemma function_consumer_loop_frame:
  "function_consumer_loop st tp = (st', tp') \<Longrightarrow> frame st True st'"
proof (induction st tp arbitrary: st' tp' rule: function_consumer_loop.induct)
  case (1 st tp)
  obtain t st1 where nt: "next_token st = (t, st1)" by (cases "next_token st")
  show ?case
    using "1.prems" nt "1.IH" [OF _ nt [symmetric]] frame_next [OF nt]
    by (auto simp: function_consumer_loop.simps [of st] split: if_splits)
qed

lemma function_consumer_frame:
  "function_consumer st tp = (ret, st', tp') \<Longrightarrow> frame st ret st'"
  using function_consumer_loop_frame [of "enter st" tp]
  by (auto simp: function_consumer_def frame_enter_leave split: if_splits prod.splits)

lemma consumers_frame:
  "(component_value_consumer n st tp = Some (ret, st', tp') \<longrightarrow> frame st ret st')
   \<and> (component_value_loop n st = Some (ret, st', bo) \<longrightarrow> frame st ret st')
   \<and> (simple_block_consumer n st tp e cc = Some (ret, st', tp') \<longrightarrow> frame st ret st')
   \<and> (simple_block_loop n st tp e = Some (ret, st', tp') \<longrightarrow> frame st ret st')"
proof (induction n arbitrary: st tp e cc ret st' tp' bo)
  case 0
  show ?case by simp
next
  case (Suc n)
  have IHc: "\<And>st tp ret st' tp'. component_value_consumer n st tp = Some (ret, st', tp') \<Longrightarrow> frame st ret st'"
    and IHl: "\<And>st ret st' bo. component_value_loop n st = Some (ret, st', bo) \<Longrightarrow> frame st ret st'"
    and IHs: "\<And>st tp e cc ret st' tp'. simple_block_consumer n st tp e cc = Some (ret, st', tp') \<Longrightarrow> frame st ret st'"
    and IHb: "\<And>st tp e ret st' tp'. simple_block_loop n st tp e = Some (ret, st', tp') \<Longrightarrow> frame st ret st'"
    using Suc by blast+
  have cvc: "frame st ret st'" if "component_value_consumer (Suc n) st tp = Some (ret, st', tp')"
    using that
    by (cases rule: component_value_consumer_cases) (auto intro: frame_enter_leave dest: IHl)
  have loop: "frame st ret st'" if "component_value_loop (Suc n) st = Some (ret, st', bo)"
    using that
    by (cases rule: component_value_loop_cases)
       (auto intro: frame_next dest: IHl IHs function_consumer_frame)
  have sbc: "frame st ret st'" if "simple_block_consumer (Suc n) st tp e cc = Some (ret, st', tp')"
    using that
    by (cases rule: simple_block_consumer_cases) (auto intro: frame_enter_leave dest: IHb)
  have sbl: "frame st ret st'" if "simple_block_loop (Suc n) st tp e = Some (ret, st', tp')"
    using that
  proof (cases rule: simple_block_loop_cases)
    case (more m t st1 st2 tp2)
    with IHc [of "pushback_token t st1" tp True st2 tp2] IHb [of st2 tp2 e ret st' tp']
    show ?thesis by (auto intro: frame_next frame_trans)
  qed (auto intro: frame_next dest: IHb IHc)
  from cvc loop sbc sbl show ?case by blast
qed

section \<open>Attaching children and function arguments\<close>

text \<open>
  Claim C5. \<^verbatim>\<open>attach_block\<close> returns false on a node whose content is a single token or
  a function record, \<^verbatim>\<open>add_function_argument\<close> returns false on a node whose content is
  anything but a function record (empty, a child list or a single token), and each
  failing call returns the node exactly as it was.
\<close>

theorem attach_shape_enforced:
  "attach_block b (Block tg (Single t)) = (False, Block tg (Single t))
   \<and> attach_block b (Block tg (Function_Block f args)) = (False, Block tg (Function_Block f args))
   \<and> add_function_argument b (Block tg Monostate) = (False, Block tg Monostate)
   \<and> add_function_argument b (Block tg (Blocks bs)) = (False, Block tg (Blocks bs))
   \<and> add_function_argument b (Block tg (Single t)) = (False, Block tg (Single t))"
  by simp

section \<open>Case analysis of the rule consumers and the driver\<close>

lemma qualified_rule_loop_cases:
  assumes "qualified_rule_loop n st tp block = Some (ret, st', block')"
  obtains
    (flag) "eof st" "ret" "st' = st" "block' = block"
  | (eof) t st1 where "\<not> eof st" "next_token st = (t, st1)" "tok_type t = eof_token"
      "ret" "st' = st1\<lparr>eof := True\<rparr>" "block' = block"
  | (skip) m t st1 where "n = Suc m" "\<not> eof st" "next_token st = (t, st1)"
      "tok_type t \<noteq> eof_token"
      "tok_type t \<in> {cdo_token, cdc_token, whitespace_token}"
      "qualified_rule_loop m st1 tp block = Some (ret, st', block')"
  | (body) m t st1 where "n = Suc m" "\<not> eof st" "next_token st = (t, st1)"
      "tok_type t \<noteq> eof_token" "tok_type t = ocurlbrace_token"
      "simple_block_consumer m st1 block ecurlbrace_token False = Some (ret, st', block')"
  | (failed) m t st1 where "n = Suc m" "\<not> eof st" "next_token st = (t, st1)"
      "tok_type t \<noteq> eof_token" "\<not> ret"
      "component_value_consumer m (pushback_token t st1) block = Some (False, st', block')"
  | (more) m t st1 st2 block2 where "n = Suc m" "\<not> eof st" "next_token st = (t, st1)"
      "tok_type t \<noteq> eof_token"
      "component_value_consumer m (pushback_token t st1) block = Some (True, st2, block2)"
      "qualified_rule_loop m st2 tp block2 = Some (ret, st', block')"
proof (cases n)
  case 0
  with assms show ?thesis by simp
next
  case (Suc m)
  obtain t st1 where nt: "next_token st = (t, st1)" by (cases "next_token st")
  show ?thesis
    using assms nt flag eof [of t st1] skip [of m t st1] body [of m t st1] failed [of m t st1]
      more [of m t st1]
    unfolding Suc
    by (simp split: if_splits option.splits prod.splits; blast)
qed

lemma at_rule_loop_cases:
  assumes "at_rule_loop n st tp block = Some (ret, st', block')"
  obtains
    (flag) "eof st" "ret" "st' = st" "block' = block"
  | (eof) t st1 where "\<not> eof st" "next_token st = (t, st1)" "tok_type t = eof_token"
      "ret" "st' = st1\<lparr>eof := True\<rparr>" "block' = block"
  | (skip) m t st1 where "n = Suc m" "\<not> eof st" "next_token st = (t, st1)"
      "tok_type t \<noteq> eof_token"
      "tok_type t \<in> {cdo_token, cdc_token, whitespace_token}"
      "at_rule_loop m st1 tp block = Some (ret, st', block')"
  | (body) m t st1 where "n = Suc m" "\<not> eof st" "next_token st = (t, st1)"
      "tok_type t \<noteq> eof_token" "tok_type t = ocurlbrace_token"
      "simple_block_consumer m st1 block ecurlbrace_token False = Some (ret, st', block')"
  | (semicolon) t st1 where "\<not> eof st" "next_token st = (t, st1)"
      "tok_type t \<noteq> eof_token" "tok_type t = semicolon_token"
      "ret" "st' = st1" "block' = block"
  | (failed) m t st1 where "n = Suc m" "\<not> eof st" "next_token st = (t, st1)"
      "tok_type t \<noteq> eof_token" "\<not> ret"
      "component_value_consumer m (pushback_token t st1) block = Some (False, st', block')"
  | (more) m t st1 st2 block2 where "n = Suc m" "\<not> eof st" "next_token st = (t, st1)"
      "tok_type t \<noteq> eof_token"
      "component_value_consumer m (pushback_token t st1) block = Some (True, st2, block2)"
      "at_rule_loop m st2 tp block2 = Some (ret, st', block')"
proof (cases n)
  case 0
  with assms show ?thesis by simp
next
  case (Suc m)
  obtain t st1 where nt: "next_token st = (t, st1)" by (cases "next_token st")
  show ?thesis
    using assms nt flag eof [of t st1] skip [of m t st1] body [of m t st1] failed [of m t st1]
      more [of m t st1] semicolon [of t st1]
    unfolding Suc
    by (simp split: if_splits option.splits prod.splits; blast)
qed

lemma qualified_rule_consumer_cases:
  assumes "qualified_rule_consumer n st tp = Some (ret, st', tp')"
  obtains
    (guard) "rec_level st + 1 > max_rec" "\<not> ret" "st' = bad_nesting st" "tp' = tp"
  | (run) m st1 block where "n = Suc m" "\<not> rec_level st + 1 > max_rec"
      "qualified_rule_loop m (enter st) tp (new_block css_qualified_rule) = Some (ret, st1, block)"
      "st' = leave st1"
      "tp' = (if ret \<and> tag tp = css_top_block then snd (attach_block block tp) else tp)"
proof (cases n)
  case 0
  with assms show ?thesis by simp
next
  case (Suc m)
  show ?thesis
    using assms guard run [of m] unfolding Suc
    by (simp split: if_splits option.splits prod.splits; blast)
qed

lemma at_rule_consumer_cases:
  assumes "at_rule_consumer n st tp = Some (ret, st', tp')"
  obtains
    (guard) "rec_level st + 1 > max_rec" "\<not> ret" "st' = bad_nesting st" "tp' = tp"
  | (run) m st1 block where "n = Suc m" "\<not> rec_level st + 1 > max_rec"
      "at_rule_loop m (enter st) tp (new_block css_at_rule) = Some (ret, st1, block)"
      "st' = leave st1"
      "tp' = (if ret \<and> tag tp = css_top_block then snd (attach_block block tp) else tp)"
proof (cases n)
  case 0
  with assms show ?thesis by simp
next
  case (Suc m)
  show ?thesis
    using assms guard run [of m] unfolding Suc
    by (simp split: if_splits option.splits prod.splits; blast)
qed

lemma consume_css_blocks_loop_cases:
  assumes "consume_css_blocks_loop n st tp = Some (st', tp')"
  obtains
    (flag) "eof st" "st' = st" "tp' = tp"
  | (eof) t st1 where "\<not> eof st" "next_token st = (t, st1)" "tok_type t = eof_token"
      "st' = st1\<lparr>eof := True\<rparr>" "tp' = tp"
  | (ws) m t st1 where "n = Suc m" "\<not> eof st" "next_token st = (t, st1)"
      "tok_type t \<noteq> eof_token" "tok_type t = whitespace_token"
      "consume_css_blocks_loop m st1 tp = Some (st', tp')"
  | (failed) m t st1 where "n = Suc m" "\<not> eof st" "next_token st = (t, st1)"
      "tok_type t \<noteq> eof_token"
      "(if tok_type t = at_keyword_token then at_rule_consumer m (pushback_token t st1) tp
        else qualified_rule_consumer m (pushback_token t st1) tp) = Some (False, st', tp')"
      "tok_type t \<noteq> whitespace_token"
  | (more) m t st1 st2 tp2 where "n = Suc m" "\<not> eof st" "next_token st = (t, st1)"
      "tok_type t \<noteq> eof_token"
      "(if tok_type t = at_keyword_token then at_rule_consumer m (pushback_token t st1) tp
        else qualified_rule_consumer m (pushback_token t st1) tp) = Some (True, st2, tp2)"
      "consume_css_blocks_loop m st2 tp2 = Some (st', tp')"
      "tok_type t \<noteq> whitespace_token"
proof (cases n)
  case 0
  with assms show ?thesis by simp
next
  case (Suc m)
  obtain t st1 where nt: "next_token st = (t, st1)" by (cases "next_token st")
  show ?thesis
    using assms nt flag eof [of t st1] ws [of m t st1] failed [of m t st1] more [of m t st1]
    unfolding Suc
    by (simp split: if_splits option.splits prod.splits; blast)
qed

section \<open>What a consumer does to the node it is given\<close>

lemma attach_block_tag [simp]: "tag (snd (attach_block b tp)) = tag tp"
  by (cases "(b, tp)" rule: attach_block.cases) simp_all

lemma attach_all_tag [simp]: "tag (attach_all bs tp) = tag tp"
  by (induction bs arbitrary: tp) simp_all

lemma attach_all_append: "attach_all (bs @ cs) tp = attach_all cs (attach_all bs tp)"
  by (induction bs arbitrary: tp) simp_all

lemma attach_all_snoc: "snd (attach_block b (attach_all bs tp)) = attach_all (bs @ [b]) tp"
  by (simp add: attach_all_append)

lemma component_value_consumer_effect:
  assumes "component_value_consumer n st tp = Some (ret, st', tp')"
  shows "tp' = tp \<or> (\<exists>b. ret \<and> tp' = snd (attach_block b tp))"
  using assms
  by (cases rule: component_value_consumer_cases) (auto split: option.splits)

lemma simple_block_loop_effect:
  "simple_block_loop n st tp e = Some (ret, st', tp') \<Longrightarrow> \<exists>bs. tp' = attach_all bs tp"
proof (induction n arbitrary: st tp)
  case 0
  then show ?case by simp
next
  case (Suc n)
  have nil: "\<exists>bs. tp = attach_all bs tp"
    by (rule exI [of _ "[]"]) simp
  from Suc.prems show ?case
  proof (cases rule: simple_block_loop_cases)
    case (ws m t st1)
    with Suc.IH show ?thesis by simp
  next
    case (failed m t st1)
    from component_value_consumer_effect [OF failed(6)] nil show ?thesis by auto
  next
    case (more m t st1 st2 tp2)
    from more(1,6) Suc.IH [of st2 tp2] obtain bs where bs: "tp' = attach_all bs tp2" by auto
    from component_value_consumer_effect [OF more(5)] have "tp2 = tp \<or> (\<exists>b. tp2 = attach_all [b] tp)"
      by auto
    with bs show ?thesis
      by (metis attach_all_append)
  qed (use nil in auto)
qed

lemma simple_block_consumer_effect:
  assumes "simple_block_consumer n st tp e cc = Some (ret, st', tp')"
  shows "if cc then \<exists>bs. tp' = attach_all bs tp
         else if ret then \<exists>bs. tp' = snd (attach_block (attach_all bs (new_block css_simple_block)) tp)
         else tp' = tp"
  using assms
  by (cases rule: simple_block_consumer_cases) (auto dest: simple_block_loop_effect)

lemma qualified_rule_loop_effect:
  "qualified_rule_loop n st tp block = Some (ret, st', block') \<Longrightarrow> tag block' = tag block"
proof (induction n arbitrary: st block)
  case 0
  then show ?case by simp
next
  case (Suc n)
  from Suc.prems show ?case
  proof (cases rule: qualified_rule_loop_cases)
    case (skip m t st1)
    with Suc.IH show ?thesis by simp
  next
    case (body m t st1)
    from simple_block_consumer_effect [OF body(6)] show ?thesis by (auto split: if_splits)
  next
    case (failed m t st1)
    from component_value_consumer_effect [OF failed(6)] show ?thesis by auto
  next
    case (more m t st1 st2 block2)
    from more(1,6) Suc.IH [of st2 block2] have "tag block' = tag block2" by auto
    with component_value_consumer_effect [OF more(5)] show ?thesis by auto
  qed auto
qed

lemma at_rule_loop_effect:
  "at_rule_loop n st tp block = Some (ret, st', block') \<Longrightarrow> tag block' = tag block"
proof (induction n arbitrary: st block)
  case 0
  then show ?case by simp
next
  case (Suc n)
  from Suc.prems show ?case
  proof (cases rule: at_rule_loop_cases)
    case (skip m t st1)
    with Suc.IH show ?thesis by simp
  next
    case (body m t st1)
    from simple_block_consumer_effect [OF body(6)] show ?thesis by (auto split: if_splits)
  next
    case (failed m t st1)
    from component_value_consumer_effect [OF failed(6)] show ?thesis by auto
  next
    case (more m t st1 st2 block2)
    from more(1,6) Suc.IH [of st2 block2] have "tag block' = tag block2" by auto
    with component_value_consumer_effect [OF more(5)] show ?thesis by auto
  qed auto
qed

lemma tag_new_block [simp]: "tag (new_block tg) = tg"
  by (simp add: new_block_def)

lemma progress_SomeE:
  assumes "progress st r"
  obtains ret st' x where "r = Some (ret, st', x)"
  using assms by (auto simp: progress_def split: option.splits)

text \<open>
  Claim C6. A run of \<^verbatim>\<open>qualified_rule_consumer\<close> (and of \<^verbatim>\<open>at_rule_consumer\<close>) with enough
  depth bound returns; when it returns success, the caller's node is the old node with
  one qualified-rule (at-rule) node attached if the caller's tag is \<open>css_top_block\<close>, and
  is exactly the old node for every other tag: the completed rule is dropped.
\<close>

theorem rule_attached_to_top_only:
  assumes "4 * budget st + 4 \<le> n"
  shows "(\<exists>ret st' tp'. qualified_rule_consumer n st tp = Some (ret, st', tp')
           \<and> (ret \<longrightarrow> (if tag tp = css_top_block
                 then \<exists>rule. tag rule = css_qualified_rule \<and> tp' = snd (attach_block rule tp)
                 else tp' = tp)))
       \<and> (\<exists>ret st' tp'. at_rule_consumer n st tp = Some (ret, st', tp')
           \<and> (ret \<longrightarrow> (if tag tp = css_top_block
                 then \<exists>rule. tag rule = css_at_rule \<and> tp' = snd (attach_block rule tp)
                 else tp' = tp)))"
proof
  from qualified_rule_consumer_progress [OF assms, of tp] obtain ret st' tp'
    where r: "qualified_rule_consumer n st tp = Some (ret, st', tp')"
    by (rule progress_SomeE)
  from r have "ret \<longrightarrow> (if tag tp = css_top_block
                 then \<exists>rule. tag rule = css_qualified_rule \<and> tp' = snd (attach_block rule tp)
                 else tp' = tp)"
  proof (cases rule: qualified_rule_consumer_cases)
    case (run m st1 block)
    from qualified_rule_loop_effect [OF run(3)] have "tag block = css_qualified_rule" by simp
    with run(5) show ?thesis by auto
  qed simp
  with r show "\<exists>ret st' tp'. qualified_rule_consumer n st tp = Some (ret, st', tp')
           \<and> (ret \<longrightarrow> (if tag tp = css_top_block
                 then \<exists>rule. tag rule = css_qualified_rule \<and> tp' = snd (attach_block rule tp)
                 else tp' = tp))" by blast
next
  from at_rule_consumer_progress [OF assms, of tp] obtain ret st' tp'
    where r: "at_rule_consumer n st tp = Some (ret, st', tp')"
    by (rule progress_SomeE)
  from r have "ret \<longrightarrow> (if tag tp = css_top_block
                 then \<exists>rule. tag rule = css_at_rule \<and> tp' = snd (attach_block rule tp)
                 else tp' = tp)"
  proof (cases rule: at_rule_consumer_cases)
    case (run m st1 block)
    from at_rule_loop_effect [OF run(3)] have "tag block = css_at_rule" by simp
    with run(5) show ?thesis by auto
  qed simp
  with r show "\<exists>ret st' tp'. at_rule_consumer n st tp = Some (ret, st', tp')
           \<and> (ret \<longrightarrow> (if tag tp = css_top_block
                 then \<exists>rule. tag rule = css_at_rule \<and> tp' = snd (attach_block rule tp)
                 else tp' = tp))" by blast
qed

theorem rule_attached_to_top_only_witness:
  "4 * budget (new_parser [Token ident_token ''p'', Token ocurlbrace_token ''{'',
       Token ecurlbrace_token ''}'']) + 4 \<le> 20
   \<and> (\<exists>st'. qualified_rule_consumer 20
         (new_parser [Token ident_token ''p'', Token ocurlbrace_token ''{'',
            Token ecurlbrace_token ''}''])
         (new_block css_simple_block) = Some (True, st', new_block css_simple_block))
   \<and> (\<exists>st'. at_rule_consumer 20
         (new_parser [Token ident_token ''p'', Token ocurlbrace_token ''{'',
            Token ecurlbrace_token ''}''])
         (new_block css_simple_block) = Some (True, st', new_block css_simple_block))"
proof -
  let ?st = "new_parser [Token ident_token ''p'', Token ocurlbrace_token ''{'',
       Token ecurlbrace_token ''}'']"
  let ?tp = "new_block css_simple_block"
  have h: "4 * budget ?st + 4 \<le> 20"
    by (simp add: budget_def remaining_def new_parser_def)
  have q: "fst (the (qualified_rule_consumer 20 ?st ?tp))"
    and a: "fst (the (at_rule_consumer 20 ?st ?tp))"
    by code_simp+
  have t: "tag ?tp \<noteq> css_top_block" by simp
  from rule_attached_to_top_only [OF h, of ?tp] q a t h show ?thesis
    by auto
qed

section \<open>The component-value and simple-block consumers\<close>

lemma next_token_stream:
  assumes "next_token st = (t, st1)" "tok_type t \<noteq> eof_token"
  shows "stream st = t # stream st1"
  using assms by (auto simp: next_token_def stream_def split: option.splits list.splits)

lemma component_value_loop_whitespace:
  "component_value_loop n st = Some (ret, st', bo) \<Longrightarrow>
     \<forall>t\<in>set (stream st). tok_type t = whitespace_token \<Longrightarrow> ret \<and> bo = None"
proof (induction n arbitrary: st)
  case 0
  then show ?case by simp
next
  case (Suc n)
  from Suc.prems(1) show ?case
  proof (cases rule: component_value_loop_cases)
    case (block m t st1 e blk)
    with next_token_stream [OF block(3,4)] Suc.prems(2) show ?thesis by auto
  next
    case (ws m t st1)
    with next_token_stream [OF ws(3,4)] Suc.prems(2) Suc.IH [of st1] show ?thesis by auto
  next
    case (func t st1 blk)
    with next_token_stream [OF func(2,3)] Suc.prems(2) show ?thesis by auto
  next
    case (comp t st1)
    with next_token_stream [OF comp(2,3)] Suc.prems(2) show ?thesis by auto
  qed auto
qed

text \<open>
  Claim C9, as amended. A call of \<^verbatim>\<open>component_value_consumer\<close> with enough depth bound
  returns, and the node it returns is the argument node or the argument node after one
  \<^verbatim>\<open>attach_block\<close> call. When the recursion guard does not trip (the counter is below
  \<open>max_rec\<close> on entry) and every token left in the stream is whitespace, so that the end
  of input follows, the call returns success and the node is unchanged.
\<close>

theorem component_value_single_shot:
  assumes "4 * budget st + 2 \<le> n"
  shows "\<exists>ret st' tp'. component_value_consumer n st tp = Some (ret, st', tp')
           \<and> (tp' = tp \<or> (\<exists>b. tp' = snd (attach_block b tp)))
           \<and> (rec_level st < max_rec \<and> (\<forall>t\<in>set (stream st). tok_type t = whitespace_token)
                \<longrightarrow> ret \<and> tp' = tp)"
proof -
  from component_value_consumer_progress [OF assms, of tp] obtain ret st' tp'
    where r: "component_value_consumer n st tp = Some (ret, st', tp')"
    by (rule progress_SomeE)
  have one: "tp' = tp \<or> (\<exists>b. tp' = snd (attach_block b tp))"
    using component_value_consumer_effect [OF r] by blast
  have none: "ret \<and> tp' = tp"
    if "rec_level st < max_rec" "\<forall>t\<in>set (stream st). tok_type t = whitespace_token"
    using r
  proof (cases rule: component_value_consumer_cases)
    case guard
    with that(1) show ?thesis by simp
  next
    case (run m st1 bo)
    have "stream (enter st) = stream st" by (simp add: stream_def enter_def)
    with component_value_loop_whitespace [OF run(3)] that(2) have "ret \<and> bo = None" by simp
    with run(5) show ?thesis by simp
  qed
  from r one none show ?thesis by blast
qed

theorem component_value_single_shot_witness:
  "\<exists>st'. component_value_consumer 14
      (new_parser [Token whitespace_token '' '', Token whitespace_token '' ''])
      (new_block css_simple_block) = Some (True, st', new_block css_simple_block)"
proof -
  let ?st = "new_parser [Token whitespace_token '' '', Token whitespace_token '' '']"
  have h: "4 * budget ?st + 2 \<le> 14"
    by (simp add: budget_def remaining_def new_parser_def)
  have g: "rec_level ?st < max_rec"
    by (simp add: new_parser_def max_rec_def)
  have w: "\<forall>t\<in>set (stream ?st). tok_type t = whitespace_token"
    by (simp add: stream_def new_parser_def)
  from component_value_single_shot [OF h, of "new_block css_simple_block"]
  obtain ret st' tp' where
    r: "component_value_consumer 14 ?st (new_block css_simple_block) = Some (ret, st', tp')"
    and i: "rec_level ?st < max_rec \<and> (\<forall>t\<in>set (stream ?st). tok_type t = whitespace_token)
              \<longrightarrow> ret \<and> tp' = new_block css_simple_block"
    by blast
  from i g w have "ret \<and> tp' = new_block css_simple_block" by blast
  with r show ?thesis by auto
qed

theorem component_value_guard_counterexample:
  "component_value_consumer 14
     \<lparr>input = [Token whitespace_token '' ''], backlog = None,
      error = Parse_Error PARSE_ERROR_UNSET None, rec_level = 20, eof = False\<rparr>
     (new_block css_simple_block)
   = Some (False,
       \<lparr>input = [Token whitespace_token '' ''], backlog = None,
        error = Parse_Error PARSE_ERROR_BAD_NESTING None, rec_level = 21, eof = False\<rparr>,
       new_block css_simple_block)"
  by code_simp

section \<open>The function consumer against its description\<close>

lemma next_token_Cons:
  assumes "stream st = t # ts"
  shows "next_token st = (t, st\<lparr>input := ts, backlog := None\<rparr>)"
  using assms by (cases st) (auto simp: next_token_def stream_def split: option.splits list.splits)

lemma next_token_Nil:
  assumes "stream st = []"
  shows "next_token st = (Token eof_token [], st)"
    "st\<lparr>input := [], backlog := None, eof := b\<rparr> = st\<lparr>eof := b\<rparr>"
  using assms by (cases st; auto simp: next_token_def stream_def split: option.splits list.splits)+

lemma stream_update [simp]: "stream (st\<lparr>input := ts, backlog := None\<rparr>) = ts"
  by (simp add: stream_def)

lemma function_consumer_loop_arguments:
  "\<not> eof st \<Longrightarrow> stream st = ts \<Longrightarrow>
   function_consumer_loop st (Block tg (Function_Block f args)) =
     (st\<lparr>input := after_function ts, backlog := None, eof := ends_at_eof ts\<rparr>,
      Block tg (Function_Block f
        (args @ map (new_token_block css_function_arg) (function_arguments ts))))"
proof (induction ts arbitrary: st args)
  case Nil
  with next_token_Nil [of st] show ?case
    by (simp add: function_consumer_loop.simps [of st])
next
  case (Cons t ts)
  let ?st1 = "st\<lparr>input := ts, backlog := None\<rparr>"
  note nt = next_token_Cons [OF Cons.prems(2)]
  have e: "\<not> eof ?st1" "stream ?st1 = ts" using Cons.prems(1) by simp_all
  have same: "?st1\<lparr>eof := False\<rparr> = ?st1" using Cons.prems(1) by (cases st) simp
  show ?case
    using Cons.prems(1) nt same Cons.IH [OF e, of args]
      Cons.IH [OF e, of "args @ [new_token_block css_function_arg t]"]
    by (simp add: function_consumer_loop.simps [of st])
qed

lemma leave_enter [simp]: "leave (enter st) = st"
  by (cases st) (simp add: leave_def enter_def)

lemma function_consumer_loop_eof: "eof st \<Longrightarrow> function_consumer_loop st tp = (st, tp)"
  by (simp add: function_consumer_loop.simps [of st])

text \<open>
  Claim C8. Every call of \<^verbatim>\<open>function_consumer\<close> on a function node is determined by the
  recursion guard and by the token stream: past the guard it returns success, and the
  node comes back with one \<open>css_function_arg\<close> child appended for each token of
  \<open>function_arguments\<close>, each carrying its token. So whitespace, comma, delimiter and
  opening-parenthesis tokens add no child, a closing parenthesis and the end of input
  both end the call with success, and every other token, a function token included, is
  appended as a plain argument.
\<close>

theorem function_consumer_arguments:
  "function_consumer st (Block tg (Function_Block f args)) =
     (if rec_level st + 1 > max_rec
        then (False, bad_nesting st, Block tg (Function_Block f args))
      else if eof st then (True, st, Block tg (Function_Block f args))
      else (True,
            st\<lparr>input := after_function (stream st), backlog := None,
               eof := ends_at_eof (stream st)\<rparr>,
            Block tg (Function_Block f
              (args @ map (new_token_block css_function_arg) (function_arguments (stream st))))))"
proof -
  have s: "stream (enter st) = stream st" "eof (enter st) = eof st"
    by (simp_all add: stream_def enter_def)
  have l: "leave (enter st\<lparr>input := i, backlog := None, eof := b\<rparr>)
           = st\<lparr>input := i, backlog := None, eof := b\<rparr>" for i b
    by (cases st) (simp add: leave_def enter_def)
  show ?thesis
    using function_consumer_loop_arguments [of "enter st" "stream st" tg f args]
    by (simp add: function_consumer_def function_consumer_loop_eof s l)
qed

theorem function_consumer_arguments_witness:
  "function_consumer
     (new_parser [Token number_token ''0'', Token comma_token '','', Token whitespace_token '' '',
        Token function_token ''var('', Token percentage_token ''50%'', Token ebrace_token '')'',
        Token ident_token ''x''])
     (Block css_function (Function_Block (Token function_token ''hsl('') []))
   = (True,
      \<lparr>input = [Token ident_token ''x''], backlog = None,
       error = Parse_Error PARSE_ERROR_UNSET None, rec_level = 0, eof = False\<rparr>,
      Block css_function (Function_Block (Token function_token ''hsl('')
        [Block css_function_arg (Single (Token number_token ''0'')),
         Block css_function_arg (Single (Token function_token ''var('')),
         Block css_function_arg (Single (Token percentage_token ''50%''))]))"
  using function_consumer_arguments [of
     "new_parser [Token number_token ''0'', Token comma_token '','', Token whitespace_token '' '',
        Token function_token ''var('', Token percentage_token ''50%'', Token ebrace_token '')'',
        Token ident_token ''x'']" css_function "Token function_token ''hsl(''" "[]"]
  by (simp add: new_parser_def stream_def max_rec_def new_token_block_def)

section \<open>The size of the consumed tree\<close>

lemma remaining_simps [simp]:
  "remaining (enter st) = remaining st" "remaining (leave st) = remaining st"
  "remaining (bad_nesting st) = remaining st" "remaining (st\<lparr>eof := b\<rparr>) = remaining st"
  by (simp_all add: remaining_def enter_def leave_def bad_nesting_def)

lemma eof_simps [simp]: "eof (bad_nesting st) = eof st"
  by (simp add: bad_nesting_def)

lemma next_token_remaining:
  assumes "next_token st = (t, st1)"
  shows "remaining st1 \<le> remaining st"
    "tok_type t \<noteq> eof_token \<Longrightarrow> remaining st1 + 1 = remaining st"
    "tok_type t \<noteq> eof_token \<Longrightarrow> remaining (pushback_token t st1) = remaining st"
  using assms
  by (auto simp: next_token_def remaining_def pushback_token_def split: option.splits list.splits)

lemma nodes_pos: "1 \<le> nodes b"
  by (cases b) simp

lemma nodes_attach_block: "nodes (snd (attach_block b tp)) \<le> nodes tp + nodes b"
  by (cases "(b, tp)" rule: attach_block.cases) simp_all

lemma nodes_add_function_argument: "nodes (snd (add_function_argument b tp)) \<le> nodes tp + nodes b"
  by (cases "(b, tp)" rule: add_function_argument.cases) simp_all

lemma nodes_new [simp]: "nodes (new_block tg) = 1" "nodes (new_token_block tg t) = 1"
  by (simp_all add: new_block_def new_token_block_def)

lemma function_consumer_loop_nodes:
  "function_consumer_loop st tp = (st', tp') \<Longrightarrow>
     nodes tp' + remaining st' \<le> nodes tp + remaining st"
proof (induction st tp arbitrary: st' tp' rule: function_consumer_loop.induct)
  case (1 st tp)
  obtain t st1 where nt: "next_token st = (t, st1)" by (cases "next_token st")
  note r = next_token_remaining [OF nt]
  show ?case
  proof (cases "eof st \<or> tok_type t = eof_token")
    case True
    with "1.prems" nt r(1) show ?thesis
      by (auto simp: function_consumer_loop.simps [of st] split: if_splits)
  next
    case False
    with r(2) have r2: "remaining st1 + 1 = remaining st" by simp
    from False "1.prems" nt "1.IH" [OF _ nt [symmetric]] r2
      nodes_add_function_argument [of "new_token_block css_function_arg t" tp]
    show ?thesis
      by (auto simp: function_consumer_loop.simps [of st] split: if_splits)
  qed
qed

lemma function_consumer_nodes:
  "function_consumer st tp = (ret, st', tp') \<Longrightarrow>
     nodes tp' + remaining st' \<le> nodes tp + remaining st"
  using function_consumer_loop_nodes [of "enter st" tp]
  by (auto simp: function_consumer_def split: if_splits prod.splits)

lemma spare_simps [simp]: "spare False st = 0" "eof st \<Longrightarrow> spare ret st = 0"
  "spare ret (leave st) = spare ret st" "spare ret (st\<lparr>eof := True\<rparr>) = 0"
  by (simp_all add: spare_def)

lemma spare_le: "spare ret st \<le> 1"
  by (simp add: spare_def)

lemma consumers_nodes:
  "(component_value_consumer n st tp = Some (ret, st', tp') \<longrightarrow>
      nodes tp' + remaining st' \<le> nodes tp + remaining st)
   \<and> (component_value_loop n st = Some (ret, st', bo) \<longrightarrow>
      nodes_opt bo + remaining st' \<le> remaining st)
   \<and> (simple_block_consumer n st tp e cc = Some (ret, st', tp') \<longrightarrow> e \<noteq> eof_token \<longrightarrow>
      nodes tp' + remaining st' + spare ret st' \<le> nodes tp + remaining st + (if cc then 0 else 1))
   \<and> (simple_block_loop n st tp e = Some (ret, st', tp') \<longrightarrow> e \<noteq> eof_token \<longrightarrow>
      nodes tp' + remaining st' + spare ret st' \<le> nodes tp + remaining st)"
proof (induction n arbitrary: st tp e cc ret st' tp' bo)
  case 0
  show ?case by simp
next
  case (Suc n)
  have IHc: "\<And>st tp ret st' tp'. component_value_consumer n st tp = Some (ret, st', tp') \<Longrightarrow>
      nodes tp' + remaining st' \<le> nodes tp + remaining st"
    and IHl: "\<And>st ret st' bo. component_value_loop n st = Some (ret, st', bo) \<Longrightarrow>
      nodes_opt bo + remaining st' \<le> remaining st"
    and IHs: "\<And>st tp e cc ret st' tp'. simple_block_consumer n st tp e cc = Some (ret, st', tp') \<Longrightarrow>
      e \<noteq> eof_token \<Longrightarrow>
      nodes tp' + remaining st' + spare ret st' \<le> nodes tp + remaining st + (if cc then 0 else 1)"
    and IHb: "\<And>st tp e ret st' tp'. simple_block_loop n st tp e = Some (ret, st', tp') \<Longrightarrow>
      e \<noteq> eof_token \<Longrightarrow>
      nodes tp' + remaining st' + spare ret st' \<le> nodes tp + remaining st"
    using Suc by blast+
  have cvc: "nodes tp' + remaining st' \<le> nodes tp + remaining st"
    if "component_value_consumer (Suc n) st tp = Some (ret, st', tp')"
    using that
  proof (cases rule: component_value_consumer_cases)
    case (run m st1 bo)
    from run(1,3) IHl [of "enter st" ret st1 bo] have "nodes_opt bo + remaining st1 \<le> remaining st"
      by simp
    with run(4,5) show ?thesis
      using nodes_attach_block [of "the bo" tp]
      by (auto simp: nodes_opt_def split: option.splits)
  qed simp
  have loop: "nodes_opt bo + remaining st' \<le> remaining st"
    if "component_value_loop (Suc n) st = Some (ret, st', bo)"
    using that
  proof (cases rule: component_value_loop_cases)
    case (block m t st1 e blk)
    from block(5) have "e \<noteq> eof_token" by auto
    with block(1,6) IHs [of st1 "new_block css_simple_block" e True ret st' blk]
      next_token_remaining(2) [OF block(3,4)] block(7)
    show ?thesis by (simp add: nodes_opt_def)
  next
    case (ws m t st1)
    with IHl [of st1 ret st' bo] next_token_remaining(2) [OF ws(3,4)] show ?thesis by simp
  next
    case (func t st1 blk)
    with function_consumer_nodes [OF func(5)] next_token_remaining(2) [OF func(2,3)]
    show ?thesis by (simp add: nodes_opt_def)
  next
    case (comp t st1)
    with next_token_remaining(2) [OF comp(2,3)] show ?thesis by (simp add: nodes_opt_def)
  next
    case (eof t st1)
    with next_token_remaining(1) [OF eof(2)] show ?thesis by (simp add: nodes_opt_def)
  qed (simp add: nodes_opt_def)
  have sbc: "nodes tp' + remaining st' + spare ret st' \<le> nodes tp + remaining st + (if cc then 0 else 1)"
    if "simple_block_consumer (Suc n) st tp e cc = Some (ret, st', tp')" "e \<noteq> eof_token"
    using that(1)
  proof (cases rule: simple_block_consumer_cases)
    case (current m)
    with IHb [of st tp e ret st' tp'] that(2) show ?thesis by simp
  next
    case (fresh m st1 blk)
    from fresh(1,4) IHb [of "enter st" "new_block css_simple_block" e ret st1 blk] that(2)
    have "nodes blk + remaining st1 + spare ret st1 \<le> 1 + remaining st" by simp
    with fresh(2,5,6) nodes_attach_block [of blk tp] nodes_pos [of blk] show ?thesis
      by (auto split: if_splits)
  qed simp
  have sbl: "nodes tp' + remaining st' + spare ret st' \<le> nodes tp + remaining st"
    if "simple_block_loop (Suc n) st tp e = Some (ret, st', tp')" "e \<noteq> eof_token"
    using that(1)
  proof (cases rule: simple_block_loop_cases)
    case (closed t st1)
    with next_token_remaining(2) [OF closed(2)] that(2) spare_le [of ret st'] show ?thesis
      by simp
  next
    case (eof t st1)
    with next_token_remaining(1) [OF eof(2)] show ?thesis by simp
  next
    case (ws m t st1)
    with IHb [of st1 tp e ret st' tp'] that(2) next_token_remaining(2) [OF ws(3,4)]
    show ?thesis by simp
  next
    case (failed m t st1)
    with IHc [of "pushback_token t st1" tp False st' tp'] next_token_remaining(3) [OF failed(3,4)]
    show ?thesis by simp
  next
    case (more m t st1 st2 tp2)
    with IHc [of "pushback_token t st1" tp True st2 tp2] IHb [of st2 tp2 e ret st' tp'] that(2)
      next_token_remaining(3) [OF more(3,4)]
    show ?thesis by simp
  qed simp
  from cvc loop sbc sbl show ?case by blast
qed

lemma component_value_consumer_nodes:
  "component_value_consumer n st tp = Some (ret, st', tp') \<Longrightarrow>
     nodes tp' + remaining st' \<le> nodes tp + remaining st"
  using consumers_nodes [of n st tp ret st' tp' _ ecurlbrace_token True] by blast

lemma simple_block_consumer_nodes:
  "simple_block_consumer n st tp e cc = Some (ret, st', tp') \<Longrightarrow> e \<noteq> eof_token \<Longrightarrow>
     nodes tp' + remaining st' + spare ret st' \<le> nodes tp + remaining st + (if cc then 0 else 1)"
  using consumers_nodes [of n st tp ret st' tp' _ e cc] by blast

lemma qualified_rule_loop_nodes:
  "qualified_rule_loop n st tp block = Some (ret, st', block') \<Longrightarrow>
     nodes block' + remaining st' + spare ret st' \<le> nodes block + remaining st"
proof (induction n arbitrary: st block)
  case 0
  then show ?case by simp
next
  case (Suc n)
  from Suc.prems show ?case
  proof (cases rule: qualified_rule_loop_cases)
    case (eof t st1)
    with next_token_remaining(1) [OF eof(2)] show ?thesis by simp
  next
    case (skip m t st1)
    with Suc.IH [of st1 block] next_token_remaining(2) [OF skip(3,4)] show ?thesis by simp
  next
    case (body m t st1)
    with simple_block_consumer_nodes [OF body(6)] next_token_remaining(2) [OF body(3,4)]
    show ?thesis by simp
  next
    case (failed m t st1)
    with component_value_consumer_nodes [OF failed(6)] next_token_remaining(3) [OF failed(3,4)]
    show ?thesis by simp
  next
    case (more m t st1 st2 block2)
    with component_value_consumer_nodes [OF more(5)] Suc.IH [of st2 block2]
      next_token_remaining(3) [OF more(3,4)]
    show ?thesis by simp
  qed simp
qed

lemma at_rule_loop_nodes:
  "at_rule_loop n st tp block = Some (ret, st', block') \<Longrightarrow>
     nodes block' + remaining st' + spare ret st' \<le> nodes block + remaining st"
proof (induction n arbitrary: st block)
  case 0
  then show ?case by simp
next
  case (Suc n)
  from Suc.prems show ?case
  proof (cases rule: at_rule_loop_cases)
    case (eof t st1)
    with next_token_remaining(1) [OF eof(2)] show ?thesis by simp
  next
    case (skip m t st1)
    with Suc.IH [of st1 block] next_token_remaining(2) [OF skip(3,4)] show ?thesis by simp
  next
    case (body m t st1)
    with simple_block_consumer_nodes [OF body(6)] next_token_remaining(2) [OF body(3,4)]
    show ?thesis by simp
  next
    case (semicolon t st1)
    with next_token_remaining(2) [OF semicolon(2,3)] spare_le [of ret st'] show ?thesis by simp
  next
    case (failed m t st1)
    with component_value_consumer_nodes [OF failed(6)] next_token_remaining(3) [OF failed(3,4)]
    show ?thesis by simp
  next
    case (more m t st1 st2 block2)
    with component_value_consumer_nodes [OF more(5)] Suc.IH [of st2 block2]
      next_token_remaining(3) [OF more(3,4)]
    show ?thesis by simp
  qed simp
qed

lemma qualified_rule_consumer_nodes:
  assumes "qualified_rule_consumer n st tp = Some (ret, st', tp')"
  shows "nodes tp' + remaining st' + spare ret st' \<le> nodes tp + remaining st + 1"
  using assms
proof (cases rule: qualified_rule_consumer_cases)
  case (run m st1 block)
  from qualified_rule_loop_nodes [OF run(3)]
  have "nodes block + remaining st1 + spare ret st1 \<le> 1 + remaining st" by simp
  with run(4,5) nodes_attach_block [of block tp] nodes_pos [of block] show ?thesis
    by (auto split: if_splits)
qed simp

lemma at_rule_consumer_nodes:
  assumes "at_rule_consumer n st tp = Some (ret, st', tp')"
  shows "nodes tp' + remaining st' + spare ret st' \<le> nodes tp + remaining st + 1"
  using assms
proof (cases rule: at_rule_consumer_cases)
  case (run m st1 block)
  from at_rule_loop_nodes [OF run(3)]
  have "nodes block + remaining st1 + spare ret st1 \<le> 1 + remaining st" by simp
  with run(4,5) nodes_attach_block [of block tp] nodes_pos [of block] show ?thesis
    by (auto split: if_splits)
qed simp

lemma consume_css_blocks_loop_nodes:
  "consume_css_blocks_loop n st tp = Some (st', tp') \<Longrightarrow>
     nodes tp' + remaining st' \<le> nodes tp + remaining st + 1"
proof (induction n arbitrary: st tp)
  case 0
  then show ?case by simp
next
  case (Suc n)
  from Suc.prems show ?case
  proof (cases rule: consume_css_blocks_loop_cases)
    case (eof t st1)
    with next_token_remaining(1) [OF eof(2)] show ?thesis by simp
  next
    case (ws m t st1)
    with Suc.IH [of st1 tp] next_token_remaining(2) [OF ws(3,4)] show ?thesis by simp
  next
    case (failed m t st1)
    from failed(5) have "nodes tp' + remaining st' + spare False st'
        \<le> nodes tp + remaining (pushback_token t st1) + 1"
      by (auto split: if_splits dest: at_rule_consumer_nodes qualified_rule_consumer_nodes)
    with next_token_remaining(3) [OF failed(3,4)] show ?thesis by simp
  next
    case (more m t st1 st2 tp2)
    from more(5) have "nodes tp2 + remaining st2 + spare True st2
        \<le> nodes tp + remaining (pushback_token t st1) + 1"
      by (auto split: if_splits dest: at_rule_consumer_nodes qualified_rule_consumer_nodes)
    with next_token_remaining(3) [OF more(3,4)]
    have a: "nodes tp2 + remaining st2 + spare True st2 \<le> nodes tp + remaining st + 1" by simp
    show ?thesis
    proof (cases "eof st2")
      case True
      from more(6) True have "st' = st2 \<and> tp' = tp2"
        by (cases rule: consume_css_blocks_loop_cases) auto
      with a show ?thesis by simp
    next
      case False
      with a have "nodes tp2 + remaining st2 \<le> nodes tp + remaining st" by (simp add: spare_def)
      with more(1,6) Suc.IH [of st2 tp2] show ?thesis by simp
    qed
  qed simp
qed

text \<open>
  Claim C4, as amended. For an input of \<open>n\<close> tokens (the end of input that the tokeniser
  reports after them not counted) \<^verbatim>\<open>consume_css_blocks\<close> returns a tree of at most
  \<open>n + 2\<close> nodes: the top node, at most one node per token, and one more for the rule
  that the end of input leaves open.
\<close>

theorem consume_css_blocks_node_bound:
  "\<exists>st tp. consume_css_blocks toks = Some (st, tp) \<and> nodes tp \<le> length toks + 2"
proof -
  from consume_css_blocks_total [of toks] obtain st tp
    where r: "consume_css_blocks toks = Some (st, tp)" by blast
  from consume_css_blocks_loop_nodes [OF r [unfolded consume_css_blocks_def]]
  have "nodes tp \<le> length toks + 2"
    by (simp add: remaining_def new_parser_def)
  with r show ?thesis by blast
qed

theorem consume_css_blocks_node_bound_witness:
  "map_option (nodes \<circ> snd)
     (consume_css_blocks [Token ident_token ''a'', Token ocurlbrace_token ''{'',
        Token ecurlbrace_token ''}'', Token ident_token ''b'', Token ocurlbrace_token ''{''])
   = Some (length [Token ident_token ''a'', Token ocurlbrace_token ''{'',
        Token ecurlbrace_token ''}'', Token ident_token ''b'', Token ocurlbrace_token ''{''] + 2)"
proof -
  let ?toks = "[Token ident_token ''a'', Token ocurlbrace_token ''{'',
        Token ecurlbrace_token ''}'', Token ident_token ''b'', Token ocurlbrace_token ''{'']"
  have lower: "map_option (\<lambda>r. 7 \<le> nodes (snd r)) (consume_css_blocks ?toks) = Some True"
    by code_simp
  from consume_css_blocks_node_bound [of ?toks] obtain st tp
    where r: "consume_css_blocks ?toks = Some (st, tp)" and le: "nodes tp \<le> length ?toks + 2"
    by blast
  from lower le show ?thesis unfolding r by simp
qed

theorem single_token_three_nodes_counterexample:
  "consume_css_blocks [Token ident_token ''p'']
     = Some (\<lparr>input = [], backlog = None, error = Parse_Error PARSE_ERROR_UNSET None,
              rec_level = 0, eof = True\<rparr>,
             Block css_top_block (Blocks [Block css_qualified_rule
               (Blocks [Block css_component (Single (Token ident_token ''p''))])]))
   \<and> nodes (Block css_top_block (Blocks [Block css_qualified_rule
               (Blocks [Block css_component (Single (Token ident_token ''p''))])])) = 3
   \<and> length [Token ident_token ''p''] + 1 = 2"
  by code_simp

section \<open>The public entry points\<close>

lemma consume_css_blocks_loop_whitespace:
  "consume_css_blocks_loop n st tp = Some (st', tp') \<Longrightarrow>
     \<forall>t\<in>set (stream st). tok_type t = whitespace_token \<Longrightarrow> tp' = tp"
proof (induction n arbitrary: st)
  case 0
  then show ?case by simp
next
  case (Suc n)
  from Suc.prems(1) show ?case
  proof (cases rule: consume_css_blocks_loop_cases)
    case (ws m t st1)
    with next_token_stream [OF ws(3,4)] Suc.prems(2) Suc.IH [of st1] show ?thesis by auto
  next
    case (failed m t st1)
    with next_token_stream [OF failed(3,4)] Suc.prems(2) show ?thesis by auto
  next
    case (more m t st1 st2 tp2)
    with next_token_stream [OF more(3,4)] Suc.prems(2) show ?thesis by auto
  qed auto
qed

lemma stream_new_parser [simp]: "stream (new_parser toks) = toks"
  by (simp add: stream_def new_parser_def)

text \<open>
  Claim C10. \<^verbatim>\<open>get_selectors_parser_functor\<close> looks up the first child of the consumed
  top node without a check: the lookup succeeds exactly when the top node has a child,
  and is out of bounds otherwise. An input of whitespace tokens only (the empty input
  included) leaves the top node without children, so there the lookup is out of bounds.
\<close>

theorem selectors_functor_first_rule:
  "\<exists>st tp. consume_css_blocks toks = Some (st, tp)
     \<and> get_selectors_parser_functor toks =
         Some (if get_blocks_or_empty tp = [] then None
               else Some (get_blocks_or_empty (hd (get_blocks_or_empty tp))))
     \<and> ((\<forall>t\<in>set toks. tok_type t = whitespace_token)
          \<longrightarrow> get_selectors_parser_functor toks = Some None)"
proof -
  from consume_css_blocks_total [of toks] obtain st tp
    where r: "consume_css_blocks toks = Some (st, tp)" by blast
  have f: "get_selectors_parser_functor toks =
         Some (if get_blocks_or_empty tp = [] then None
               else Some (get_blocks_or_empty (hd (get_blocks_or_empty tp))))"
    by (simp add: get_selectors_parser_functor_def r first_rule_def split: list.splits)
  have "tp = new_block css_top_block" if "\<forall>t\<in>set toks. tok_type t = whitespace_token"
    using consume_css_blocks_loop_whitespace [OF r [unfolded consume_css_blocks_def]] that
    by simp
  then have "get_blocks_or_empty tp = []" if "\<forall>t\<in>set toks. tok_type t = whitespace_token"
    using that by (simp add: new_block_def)
  with r f show ?thesis by auto
qed

theorem selectors_functor_first_rule_witness:
  "get_selectors_parser_functor [Token whitespace_token '' '', Token whitespace_token '' '']
     = Some None
   \<and> get_selectors_parser_functor [] = Some None"
proof -
  have a: "\<forall>t\<in>set [Token whitespace_token '' '', Token whitespace_token '' ''].
             tok_type t = whitespace_token" by simp
  have b: "\<forall>t\<in>set ([] :: css_parser_token list). tok_type t = whitespace_token" by simp
  from selectors_functor_first_rule [of "[Token whitespace_token '' '', Token whitespace_token '' '']"]
    selectors_functor_first_rule [of "[]"] a b
  show ?thesis by blast
qed

text \<open>
  Claim C2, as amended. \<^verbatim>\<open>parse_css\<close> returns the \<open>PARSE_ERROR_INVALID_SYNTAX\<close> error
  exactly when the consumed top node has no children. When the top node has children it
  returns a style sheet, whatever the rule assembler recognises in them: with no
  recognisable rule the sheet is empty.
\<close>

theorem parse_css_result:
  "\<exists>st tp. consume_css_blocks toks = Some (st, tp)
     \<and> parse_css sel decl toks =
         Some (if get_blocks_or_empty tp = []
               then Inl (Parse_Error PARSE_ERROR_INVALID_SYNTAX (Some ''cannot parse input''))
               else Inr (concat (map (process_rule sel decl) (get_blocks_or_empty tp))))"
proof -
  from consume_css_blocks_total [of toks] obtain st tp
    where r: "consume_css_blocks toks = Some (st, tp)" by blast
  then show ?thesis
    by (simp add: parse_css_def consume_input_def get_object_maybe_def Let_def)
qed

theorem parse_css_result_witness:
  "parse_css id Some [Token semicolon_token '';'']
     = Some (Inr [])
   \<and> parse_css id Some []
     = Some (Inl (Parse_Error PARSE_ERROR_INVALID_SYNTAX (Some ''cannot parse input'')))"
proof -
  have a: "map_option (get_blocks_or_empty \<circ> snd)
             (consume_css_blocks [Token semicolon_token '';''])
           = Some [Block css_qualified_rule
                    (Blocks [Block css_component (Single (Token semicolon_token '';''))])]"
    and b: "map_option (get_blocks_or_empty \<circ> snd) (consume_css_blocks []) = Some []"
    by code_simp+
  from parse_css_result [of "[Token semicolon_token '';'']" id Some] a
  have 1: "parse_css id Some [Token semicolon_token '';''] = Some (Inr [])"
    by (auto simp: process_rule_def)
  from parse_css_result [of "[]" id Some] b
  have 2: "parse_css id Some []
     = Some (Inl (Parse_Error PARSE_ERROR_INVALID_SYNTAX (Some ''cannot parse input'')))"
    by auto
  from 1 2 show ?thesis by simp
qed

theorem at_rule_only_counterexample:
  "consume_css_blocks [Token at_keyword_token ''@media'', Token semicolon_token '';'']
     = Some (\<lparr>input = [], backlog = None, error = Parse_Error PARSE_ERROR_UNSET None,
              rec_level = 0, eof = True\<rparr>,
             Block css_top_block (Blocks [Block css_at_rule
               (Blocks [Block css_component (Single (Token at_keyword_token ''@media''))])]))
   \<and> parse_css id Some [Token at_keyword_token ''@media'', Token semicolon_token '';'']
     = Some (Inr [])"
  by code_simp

section \<open>When the recursion guard trips\<close>

lemma stream_pushback:
  "backlog st = None \<Longrightarrow> stream (pushback_token t st) = t # stream st"
  by (simp add: stream_def pushback_token_def)

lemma stream_enter [simp]: "stream (enter st) = stream st"
  by (simp add: stream_def enter_def)

lemma error_leave [simp]: "error (leave st) = error st"
  by (simp add: leave_def)

lemma rec_level_enter [simp]: "rec_level (enter st) = rec_level st + 1"
  by (simp add: enter_def)

lemma deep_nesting_trips:
  assumes lb: "tok_type lb = ocurlbrace_token"
  shows "\<not> eof st \<Longrightarrow> stream st = replicate (Suc d) lb @ rest \<Longrightarrow>
     max_rec \<le> rec_level st + int d \<Longrightarrow> 4 * d + 1 \<le> n \<Longrightarrow>
     \<exists>st'. component_value_consumer n st tp = Some (False, st', tp)
        \<and> error st' = Parse_Error PARSE_ERROR_BAD_NESTING None"
proof (induction d arbitrary: st tp n)
  case 0
  then obtain m where "n = Suc m" by (cases n) auto
  with 0 show ?case by (simp add: bad_nesting_def)
next
  case (Suc d)
  show ?case
  proof (cases "rec_level st + 1 > max_rec")
    case True
    from Suc.prems(4) obtain m where "n = Suc m" by (cases n) auto
    with True show ?thesis by (simp add: bad_nesting_def)
  next
    case False
    from Suc.prems(4) obtain m where n: "n = Suc (Suc (Suc (Suc m)))" and m: "4 * d + 1 \<le> m"
      by (cases n; simp; rename_tac a; case_tac a; simp; rename_tac b; case_tac b; simp;
          rename_tac c; case_tac c; simp)
    let ?st1 = "(enter st)\<lparr>input := replicate (Suc d) lb @ rest, backlog := None\<rparr>"
    let ?st2 = "?st1\<lparr>input := replicate d lb @ rest, backlog := None\<rparr>"
    have nt1: "next_token (enter st) = (lb, ?st1)"
      by (rule next_token_Cons) (simp add: Suc.prems(2))
    have nt2: "next_token ?st1 = (lb, ?st2)"
      by (rule next_token_Cons) simp
    have e: "\<not> eof (enter st)" "\<not> eof ?st1" "\<not> eof (pushback_token lb ?st2)"
      using Suc.prems(1) by (simp_all add: pushback_token_def)
    have s: "stream (pushback_token lb ?st2) = replicate (Suc d) lb @ rest"
      by (simp add: stream_pushback)
    have r: "max_rec \<le> rec_level (pushback_token lb ?st2) + int d"
      using Suc.prems(3) by (simp add: pushback_token_def)
    from Suc.IH [OF e(3) s r m, of "new_block css_simple_block"] obtain st'
      where c: "component_value_consumer m (pushback_token lb ?st2) (new_block css_simple_block)
                  = Some (False, st', new_block css_simple_block)"
        and b: "error st' = Parse_Error PARSE_ERROR_BAD_NESTING None"
      by blast
    have "component_value_consumer n st tp = Some (False, leave st', tp)"
      unfolding n using False e nt1 nt2 lb c by simp
    with b show ?thesis by simp
  qed
qed

lemma twenty_braces_trip:
  assumes lb: "tok_type lb = ocurlbrace_token"
  shows "\<exists>st. consume_css_blocks (replicate 20 lb @ rest) = Some (st, new_block css_top_block)
           \<and> error st = Parse_Error PARSE_ERROR_BAD_NESTING None"
proof -
  let ?toks = "replicate 20 lb @ rest"
  let ?N = "4 * length ?toks + 9"
  obtain M where N: "?N = Suc (Suc (Suc (Suc (Suc M))))" and M: "4 * 18 + 1 \<le> M"
    by (rule that [of "4 * length rest + 84"]) simp_all
  let ?st0 = "new_parser ?toks"
  let ?st1 = "?st0\<lparr>input := replicate 19 lb @ rest, backlog := None\<rparr>"
  let ?stA = "pushback_token lb ?st1"
  let ?stB = "(enter ?stA)\<lparr>input := replicate 19 lb @ rest, backlog := None\<rparr>"
  let ?stC = "(enter ?stB)\<lparr>input := replicate 18 lb @ rest, backlog := None\<rparr>"
  let ?stD = "pushback_token lb ?stC"
  have r20: "replicate 20 lb = lb # replicate 19 lb" and r19: "replicate 19 lb = lb # replicate 18 lb"
    by (simp_all add: numeral_eq_Suc)
  have nt0: "next_token ?st0 = (lb, ?st1)"
    by (rule next_token_Cons) (simp add: r20)
  have nt1: "next_token (enter ?stA) = (lb, ?stB)"
    by (rule next_token_Cons) (simp add: stream_pushback)
  have nt2: "next_token (enter ?stB) = (lb, ?stC)"
    by (rule next_token_Cons) (simp add: r19)
  have e: "\<not> eof ?st0" "\<not> eof (enter ?stA)" "\<not> eof (enter ?stB)" "\<not> eof ?stD"
    by (simp_all add: new_parser_def pushback_token_def enter_def)
  have lv: "rec_level ?stA = 0" "rec_level ?stB = 1" "rec_level ?stD = 2"
    by (simp_all add: new_parser_def pushback_token_def enter_def)
  have s: "stream ?stD = replicate (Suc 18) lb @ rest"
    by (simp add: stream_pushback r19 [symmetric] del: replicate_Suc)
  have g: "max_rec \<le> rec_level ?stD + int 18"
    by (simp add: lv max_rec_def)
  from deep_nesting_trips [OF lb e(4) s g M, of "new_block css_simple_block"] obtain st'
    where c: "component_value_consumer M ?stD (new_block css_simple_block)
                = Some (False, st', new_block css_simple_block)"
      and b: "error st' = Parse_Error PARSE_ERROR_BAD_NESTING None"
    by blast
  have "consume_css_blocks_loop ?N ?st0 (new_block css_top_block)
          = Some (leave (leave st'), new_block css_top_block)"
    unfolding N using e nt0 nt1 nt2 lb lv c by (simp add: max_rec_def)
  with b show ?thesis
    unfolding consume_css_blocks_def by simp
qed


text \<open>
  Claim C1, as amended. An input that opens with twenty (or more) nested \<^verbatim>\<open>{\<close> trips the
  recursion guard: the parser records \<open>PARSE_ERROR_BAD_NESTING\<close>, the top node is
  returned without children, and \<^verbatim>\<open>parse_css\<close> returns an error, not a style sheet.
  Whenever the top node has children, as when a rule was completed before the guard
  tripped, \<^verbatim>\<open>parse_css\<close> returns a style sheet.
\<close>

theorem nesting_overflow_outcome:
  assumes "tok_type lb = ocurlbrace_token"
  shows "(\<exists>st e. consume_css_blocks (replicate 20 lb @ rest) = Some (st, new_block css_top_block)
            \<and> error st = Parse_Error PARSE_ERROR_BAD_NESTING None
            \<and> parse_css sel decl (replicate 20 lb @ rest) = Some (Inl e))
         \<and> (consume_css_blocks toks = Some (st', tp) \<and> get_blocks_or_empty tp \<noteq> []
              \<longrightarrow> (\<exists>sheet. parse_css sel decl toks = Some (Inr sheet)))"
proof
  from twenty_braces_trip [OF assms, of rest] obtain st
    where r: "consume_css_blocks (replicate 20 lb @ rest) = Some (st, new_block css_top_block)"
      and b: "error st = Parse_Error PARSE_ERROR_BAD_NESTING None"
    by blast
  have "parse_css sel decl (replicate 20 lb @ rest)
          = Some (Inl (Parse_Error PARSE_ERROR_INVALID_SYNTAX (Some ''cannot parse input'')))"
    by (simp add: parse_css_def consume_input_def r new_block_def)
  with r b show "\<exists>st e. consume_css_blocks (replicate 20 lb @ rest) = Some (st, new_block css_top_block)
            \<and> error st = Parse_Error PARSE_ERROR_BAD_NESTING None
            \<and> parse_css sel decl (replicate 20 lb @ rest) = Some (Inl e)"
    by blast
next
  show "consume_css_blocks toks = Some (st', tp) \<and> get_blocks_or_empty tp \<noteq> []
          \<longrightarrow> (\<exists>sheet. parse_css sel decl toks = Some (Inr sheet))"
    by (simp add: parse_css_def consume_input_def get_object_maybe_def)
qed

theorem nesting_overflow_outcome_witness:
  "(\<exists>st e. consume_css_blocks (replicate 20 (Token ocurlbrace_token ''{'') @ [Token ocurlbrace_token ''{''])
              = Some (st, new_block css_top_block)
          \<and> error st = Parse_Error PARSE_ERROR_BAD_NESTING None
          \<and> parse_css id Some (replicate 20 (Token ocurlbrace_token ''{'') @ [Token ocurlbrace_token ''{''])
              = Some (Inl e))
   \<and> (\<exists>sheet. parse_css id Some
         ([Token ident_token ''p'', Token ocurlbrace_token ''{'', Token ident_token ''a'',
           Token ecurlbrace_token ''}''] @ replicate 21 (Token ocurlbrace_token ''{''))
         = Some (Inr sheet))"
proof -
  let ?lb = "Token ocurlbrace_token ''{''"
  let ?toks = "[Token ident_token ''p'', Token ocurlbrace_token ''{'', Token ident_token ''a'',
           Token ecurlbrace_token ''}''] @ replicate 21 (Token ocurlbrace_token ''{'')"
  have h: "tok_type ?lb = ocurlbrace_token" by simp
  obtain st' tp where r: "consume_css_blocks ?toks = Some (st', tp)"
    using consume_css_blocks_total [of ?toks] by blast
  have "map_option (\<lambda>r. get_blocks_or_empty (snd r) \<noteq> []) (consume_css_blocks ?toks) = Some True"
    by code_simp
  with r have c: "get_blocks_or_empty tp \<noteq> []" by simp
  from nesting_overflow_outcome [OF h, of "[?lb]" id Some ?toks st' tp] r c
  show ?thesis by blast
qed

theorem nesting_overflow_counterexample:
  "parse_css id Some (replicate 21 (Token ocurlbrace_token ''{''))
     = Some (Inl (Parse_Error PARSE_ERROR_INVALID_SYNTAX (Some ''cannot parse input'')))
   \<and> parse_css id Some
       ([Token ident_token ''p'', Token ocurlbrace_token ''{'', Token ident_token ''a'',
         Token ecurlbrace_token ''}''] @ replicate 21 (Token ocurlbrace_token ''{''))
     = Some (Inr [(Block css_component (Single (Token ident_token ''p'')),
                   [Block css_component (Single (Token ident_token ''a''))])])"
  by code_simp

lemma component_value_consumer_frame:
  "component_value_consumer n st tp = Some (ret, st', tp') \<Longrightarrow> frame st ret st'"
  using consumers_frame [of n st tp ret st' tp' _ ecurlbrace_token True] by blast

lemma simple_block_consumer_frame:
  "simple_block_consumer n st tp e cc = Some (ret, st', tp') \<Longrightarrow> frame st ret st'"
  using consumers_frame [of n st tp ret st' tp' _ e cc] by blast

lemma qualified_rule_loop_frame:
  "qualified_rule_loop n st tp block = Some (ret, st', block') \<Longrightarrow> frame st ret st'"
proof (induction n arbitrary: st block)
  case 0
  then show ?case by simp
next
  case (Suc n)
  from Suc.prems show ?case
  proof (cases rule: qualified_rule_loop_cases)
    case (skip m t st1)
    with Suc.IH [of st1 block] frame_next(1) [OF skip(3)] show ?thesis by simp
  next
    case (body m t st1)
    with simple_block_consumer_frame [OF body(6)] frame_next(1) [OF body(3)] show ?thesis by simp
  next
    case (failed m t st1)
    with component_value_consumer_frame [OF failed(6)] frame_next(2) [OF failed(3)]
    show ?thesis by simp
  next
    case (more m t st1 st2 block2)
    from component_value_consumer_frame [OF more(5)] frame_next(2) [OF more(3)]
    have "frame st True st2" by simp
    with more(1,6) Suc.IH [of st2 block2] show ?thesis by (auto intro: frame_trans)
  qed (auto intro: frame_next)
qed

lemma at_rule_loop_frame:
  "at_rule_loop n st tp block = Some (ret, st', block') \<Longrightarrow> frame st ret st'"
proof (induction n arbitrary: st block)
  case 0
  then show ?case by simp
next
  case (Suc n)
  from Suc.prems show ?case
  proof (cases rule: at_rule_loop_cases)
    case (skip m t st1)
    with Suc.IH [of st1 block] frame_next(1) [OF skip(3)] show ?thesis by simp
  next
    case (body m t st1)
    with simple_block_consumer_frame [OF body(6)] frame_next(1) [OF body(3)] show ?thesis by simp
  next
    case (failed m t st1)
    with component_value_consumer_frame [OF failed(6)] frame_next(2) [OF failed(3)]
    show ?thesis by simp
  next
    case (more m t st1 st2 block2)
    from component_value_consumer_frame [OF more(5)] frame_next(2) [OF more(3)]
    have "frame st True st2" by simp
    with more(1,6) Suc.IH [of st2 block2] show ?thesis by (auto intro: frame_trans)
  qed (auto intro: frame_next)
qed

lemma qualified_rule_consumer_frame:
  assumes "qualified_rule_consumer n st tp = Some (ret, st', tp')"
  shows "frame st ret st'"
  using assms
  by (cases rule: qualified_rule_consumer_cases)
     (auto intro: frame_enter_leave dest: qualified_rule_loop_frame)

lemma at_rule_consumer_frame:
  assumes "at_rule_consumer n st tp = Some (ret, st', tp')"
  shows "frame st ret st'"
  using assms
  by (cases rule: at_rule_consumer_cases)
     (auto intro: frame_enter_leave dest: at_rule_loop_frame)

text \<open>
  The recursion counter across a call of any of the five consumers: a call that returns
  success leaves the counter (and the recorded error) as it found them; a call that
  returns failure leaves the counter one above its value at the call, with
  \<open>PARSE_ERROR_BAD_NESTING\<close> recorded. The guard's early return comes after the
  increment and before any decrement.
\<close>

lemma recursion_counter_across_calls:
  "(function_consumer st tp = (ret, st', tp') \<longrightarrow> frame st ret st')
   \<and> (component_value_consumer n st tp = Some (ret, st', tp') \<longrightarrow> frame st ret st')
   \<and> (simple_block_consumer n st tp e cc = Some (ret, st', tp') \<longrightarrow> frame st ret st')
   \<and> (qualified_rule_consumer n st tp = Some (ret, st', tp') \<longrightarrow> frame st ret st')
   \<and> (at_rule_consumer n st tp = Some (ret, st', tp') \<longrightarrow> frame st ret st')"
  by (intro conjI impI)
     (erule function_consumer_frame component_value_consumer_frame simple_block_consumer_frame
        qualified_rule_consumer_frame at_rule_consumer_frame)+

text \<open>
  Claim C3 at the input of 21 nested \<^verbatim>\<open>{\<close>. The driver calls
  \<^verbatim>\<open>qualified_rule_consumer\<close> with the counter at 0; the call returns failure and leaves
  the counter at 1, which is also the counter \<^verbatim>\<open>consume_css_blocks\<close> ends with. The
  innermost call, \<^verbatim>\<open>component_value_consumer\<close> entered at 20, returns with the counter
  at 21.
\<close>

theorem counter_after_bad_nesting:
  "rec_level (pushback_token (Token ocurlbrace_token ''{'')
       (snd (next_token (new_parser (replicate 21 (Token ocurlbrace_token ''{'')))))) = 0
   \<and> qualified_rule_consumer 92
       (pushback_token (Token ocurlbrace_token ''{'')
          (snd (next_token (new_parser (replicate 21 (Token ocurlbrace_token ''{''))))))
       (new_block css_top_block)
     = Some (False,
         \<lparr>input = [Token ocurlbrace_token ''{''], backlog = Some (Token ocurlbrace_token ''{''),
          error = Parse_Error PARSE_ERROR_BAD_NESTING None, rec_level = 1, eof = False\<rparr>,
         new_block css_top_block)
   \<and> consume_css_blocks (replicate 21 (Token ocurlbrace_token ''{''))
     = Some (\<lparr>input = [Token ocurlbrace_token ''{''], backlog = Some (Token ocurlbrace_token ''{''),
          error = Parse_Error PARSE_ERROR_BAD_NESTING None, rec_level = 1, eof = False\<rparr>,
         new_block css_top_block)
   \<and> component_value_consumer 12
       \<lparr>input = [Token ocurlbrace_token ''{''], backlog = Some (Token ocurlbrace_token ''{''),
        error = Parse_Error PARSE_ERROR_UNSET None, rec_level = 20, eof = False\<rparr>
       (new_block css_simple_block)
     = Some (False,
         \<lparr>input = [Token ocurlbrace_token ''{''], backlog = Some (Token ocurlbrace_token ''{''),
          error = Parse_Error PARSE_ERROR_BAD_NESTING None, rec_level = 21, eof = False\<rparr>,
         new_block css_simple_block)"
  by code_simp

section \<open>The simple-block consumer against its description\<close>

lemma component_value_consumer_any_block:
  "component_value_consumer n st tp =
     map_option (\<lambda>(ret, st', produced). (ret, st', attach_all (get_blocks_or_empty produced) tp))
       (component_value_consumer n st (Block css_simple_block (Blocks [])))"
  by (cases n) (auto split: option.splits)

lemma component_value_consumer_failed:
  "component_value_consumer n st tp = Some (False, st', tp') \<Longrightarrow> tp' = tp"
  by (drule component_value_consumer_effect) auto

lemma simple_block_loop_components:
  "simple_block_loop n st tp e =
     map_option (\<lambda>(ret, st', bs). (ret, st', attach_all bs tp)) (consumed_components n st e)"
proof (induction n arbitrary: st tp)
  case 0
  show ?case by simp
next
  case (Suc n)
  obtain t st1 where nt: "next_token st = (t, st1)" by (cases "next_token st")
  show ?case
    using nt Suc.IH component_value_consumer_any_block [of n "pushback_token t st1" tp]
    by (auto simp: attach_all_append split: option.splits dest: component_value_consumer_failed)
qed

lemma simple_block_loop_componentsE:
  assumes "simple_block_loop n st tp e = Some (ret, st', tp')"
  obtains bs where "consumed_components n st e = Some (ret, st', bs)" "tp' = attach_all bs tp"
  using assms unfolding simple_block_loop_components [of n st tp e]
  by (cases "consumed_components n st e") auto

lemma simple_block_loop_counter:
  "simple_block_loop n st tp e = Some (ret, st', tp') \<Longrightarrow>
     (ret \<and> rec_level st' = rec_level st \<and> error st' = error st)
     \<or> (\<not> ret \<and> (\<exists>m s b. component_value_consumer m s b = Some (False, st', tp')
                        \<and> rec_level s = rec_level st))"
proof (induction n arbitrary: st tp)
  case 0
  then show ?case by simp
next
  case (Suc n)
  from Suc.prems show ?case
  proof (cases rule: simple_block_loop_cases)
    case (closed t st1)
    with next_token_frame [OF closed(2)] show ?thesis by simp
  next
    case (eof t st1)
    with next_token_frame [OF eof(2)] show ?thesis by simp
  next
    case (ws m t st1)
    with next_token_frame [OF ws(3)] Suc.IH [of st1 tp] show ?thesis by simp
  next
    case (failed m t st1)
    from next_token_frame [OF failed(3)]
    have "rec_level (pushback_token t st1) = rec_level st" by (simp add: pushback_token_def)
    with failed(5,6) show ?thesis by blast
  next
    case (more m t st1 st2 tp2)
    from component_value_consumer_frame [OF more(5)] next_token_frame [OF more(3)]
    have "rec_level st2 = rec_level st" "error st2 = error st"
      by (simp_all add: frame_def pushback_token_def)
    with more(1,6) Suc.IH [of st2 tp2] show ?thesis by simp
  qed simp
qed

text \<open>
  Claim C7. With \<^verbatim>\<open>consume_current = true\<close> the consumer is its loop, run on the caller's
  state and on the caller's block: it neither tests nor changes the recursion counter,
  allocates no node and attaches none to a parent. Every such call returns, and it
  returns the caller's block with exactly the consumed components attached to it, in
  order. The counter the call returns is the counter it was entered with; the only
  other outcome is a failed call, and then the state returned is the very state a
  failing component-value consumer returned, a consumer that this call had entered at
  the caller's counter value. With \<^verbatim>\<open>consume_current = false\<close> the call fails at the guard
  with the parent unchanged, or it consumes the components one level deeper; on success
  the parent comes back with one fresh \<open>css_simple_block\<close> node, holding these components,
  attached to it, and on failure the parent comes back unchanged.
\<close>

theorem simple_block_consume_current:
  assumes "4 * budget st + 4 \<le> Suc n" and "e \<noteq> eof_token"
  shows "simple_block_consumer (Suc n) st tp e True = simple_block_loop n st tp e
         \<and> (\<exists>ret st' bs. consumed_components n st e = Some (ret, st', bs)
               \<and> simple_block_consumer (Suc n) st tp e True = Some (ret, st', attach_all bs tp)
               \<and> ((ret \<and> rec_level st' = rec_level st)
                    \<or> (\<not> ret \<and> (\<exists>m s b. component_value_consumer m s b
                                              = Some (False, st', attach_all bs tp)
                                          \<and> rec_level s = rec_level st))))
         \<and> (\<exists>ret st1 bs. consumed_components n (enter st) e = Some (ret, st1, bs)
               \<and> simple_block_consumer (Suc n) st tp e False =
                   (if rec_level st + 1 > max_rec then Some (False, bad_nesting st, tp)
                    else Some (ret, leave st1,
                           if ret
                           then snd (attach_block (attach_all bs (new_block css_simple_block)) tp)
                           else tp)))"
proof (intro conjI)
  show "simple_block_consumer (Suc n) st tp e True = simple_block_loop n st tp e"
    by simp
next
  from simple_block_consumer_progress [OF assms, of tp True] obtain ret st' tp'
    where r: "simple_block_loop n st tp e = Some (ret, st', tp')"
    by (auto elim: progress_SomeE)
  from r obtain bs
    where c: "consumed_components n st e = Some (ret, st', bs)" and t: "tp' = attach_all bs tp"
    by (rule simple_block_loop_componentsE)
  from simple_block_loop_counter [OF r]
  have "(ret \<and> rec_level st' = rec_level st)
        \<or> (\<not> ret \<and> (\<exists>m s b. component_value_consumer m s b = Some (False, st', attach_all bs tp)
                           \<and> rec_level s = rec_level st))"
    unfolding t by blast
  with r c t
  show "\<exists>ret st' bs. consumed_components n st e = Some (ret, st', bs)
               \<and> simple_block_consumer (Suc n) st tp e True = Some (ret, st', attach_all bs tp)
               \<and> ((ret \<and> rec_level st' = rec_level st)
                    \<or> (\<not> ret \<and> (\<exists>m s b. component_value_consumer m s b
                                              = Some (False, st', attach_all bs tp)
                                          \<and> rec_level s = rec_level st)))"
    by (intro exI [of _ ret] exI [of _ st'] exI [of _ bs]) simp
next
  from assms(1) have "4 * budget (enter st) + 4 \<le> Suc n" by simp
  from simple_block_consumer_progress [OF this assms(2), of "new_block css_simple_block" True]
  obtain ret st1 blk
    where r: "simple_block_loop n (enter st) (new_block css_simple_block) e = Some (ret, st1, blk)"
    by (auto elim: progress_SomeE)
  from r obtain bs
    where c: "consumed_components n (enter st) e = Some (ret, st1, bs)"
      and t: "blk = attach_all bs (new_block css_simple_block)"
    by (rule simple_block_loop_componentsE)
  from r c t
  show "\<exists>ret st1 bs. consumed_components n (enter st) e = Some (ret, st1, bs)
               \<and> simple_block_consumer (Suc n) st tp e False =
                   (if rec_level st + 1 > max_rec then Some (False, bad_nesting st, tp)
                    else Some (ret, leave st1,
                           if ret
                           then snd (attach_block (attach_all bs (new_block css_simple_block)) tp)
                           else tp))"
    by (intro exI [of _ ret] exI [of _ st1] exI [of _ bs]) simp
qed

theorem simple_block_consume_current_witness:
  "simple_block_consumer (Suc 43)
     (new_parser [Token ident_token ''a'', Token obrace_token ''('', Token ident_token ''b'',
        Token ebrace_token '')'', Token function_token ''f('', Token number_token ''1'',
        Token ebrace_token '')'', Token ecurlbrace_token ''}'', Token ident_token ''x''])
     (Block css_simple_block (Blocks [])) ecurlbrace_token True
   = Some (True,
       \<lparr>input = [Token ident_token ''x''], backlog = None,
        error = Parse_Error PARSE_ERROR_UNSET None, rec_level = 0, eof = False\<rparr>,
       Block css_simple_block (Blocks
         [Block css_component (Single (Token ident_token ''a'')),
          Block css_simple_block (Blocks [Block css_component (Single (Token ident_token ''b''))]),
          Block css_function (Function_Block (Token function_token ''f('')
            [Block css_function_arg (Single (Token number_token ''1''))])]))
   \<and> simple_block_consumer (Suc 43)
     (new_parser [Token ident_token ''a'', Token obrace_token ''('', Token ident_token ''b'',
        Token ebrace_token '')'', Token function_token ''f('', Token number_token ''1'',
        Token ebrace_token '')'', Token ecurlbrace_token ''}'', Token ident_token ''x''])
     (Block css_qualified_rule (Blocks [])) ecurlbrace_token False
   = Some (True,
       \<lparr>input = [Token ident_token ''x''], backlog = None,
        error = Parse_Error PARSE_ERROR_UNSET None, rec_level = 0, eof = False\<rparr>,
       Block css_qualified_rule (Blocks [Block css_simple_block (Blocks
         [Block css_component (Single (Token ident_token ''a'')),
          Block css_simple_block (Blocks [Block css_component (Single (Token ident_token ''b''))]),
          Block css_function (Function_Block (Token function_token ''f('')
            [Block css_function_arg (Single (Token number_token ''1''))])])]))
   \<and> simple_block_consumer (Suc 11)
     \<lparr>input = [Token ident_token ''a''], backlog = None,
      error = Parse_Error PARSE_ERROR_UNSET None, rec_level = 20, eof = False\<rparr>
     (Block css_simple_block (Blocks [])) ecurlbrace_token True
   = Some (False,
       \<lparr>input = [], backlog = Some (Token ident_token ''a''),
        error = Parse_Error PARSE_ERROR_BAD_NESTING None, rec_level = 21, eof = False\<rparr>,
       Block css_simple_block (Blocks []))"
proof -
  let ?st = "new_parser [Token ident_token ''a'', Token obrace_token ''('', Token ident_token ''b'',
        Token ebrace_token '')'', Token function_token ''f('', Token number_token ''1'',
        Token ebrace_token '')'', Token ecurlbrace_token ''}'', Token ident_token ''x'']"
  let ?bs = "[Block css_component (Single (Token ident_token ''a'')),
          Block css_simple_block (Blocks [Block css_component (Single (Token ident_token ''b''))]),
          Block css_function (Function_Block (Token function_token ''f('')
            [Block css_function_arg (Single (Token number_token ''1''))])]"
  have h: "4 * budget ?st + 4 \<le> Suc 43"
    by (simp add: budget_def remaining_def new_parser_def)
  have e: "ecurlbrace_token \<noteq> eof_token" by simp
  have c1: "consumed_components 43 ?st ecurlbrace_token
              = Some (True, \<lparr>input = [Token ident_token ''x''], backlog = None,
                   error = Parse_Error PARSE_ERROR_UNSET None, rec_level = 0, eof = False\<rparr>, ?bs)"
    and c2: "consumed_components 43 (enter ?st) ecurlbrace_token
              = Some (True, \<lparr>input = [Token ident_token ''x''], backlog = None,
                   error = Parse_Error PARSE_ERROR_UNSET None, rec_level = 1, eof = False\<rparr>, ?bs)"
    by code_simp+
  have g: "\<not> rec_level ?st + 1 > max_rec" by (simp add: new_parser_def max_rec_def)
  note t = simple_block_consume_current [OF h e]
  from t [of "Block css_simple_block (Blocks [])"] c1
  have a: "simple_block_consumer (Suc 43) ?st (Block css_simple_block (Blocks [])) ecurlbrace_token True
             = Some (True, \<lparr>input = [Token ident_token ''x''], backlog = None,
                   error = Parse_Error PARSE_ERROR_UNSET None, rec_level = 0, eof = False\<rparr>,
                 attach_all ?bs (Block css_simple_block (Blocks [])))"
    by (auto simp del: simple_block_consumer.simps)
  from t [of "Block css_qualified_rule (Blocks [])"] c2 g
  have b: "simple_block_consumer (Suc 43) ?st (Block css_qualified_rule (Blocks [])) ecurlbrace_token False
             = Some (True, leave \<lparr>input = [Token ident_token ''x''], backlog = None,
                   error = Parse_Error PARSE_ERROR_UNSET None, rec_level = 1, eof = False\<rparr>,
                 snd (attach_block (attach_all ?bs (new_block css_simple_block))
                        (Block css_qualified_rule (Blocks []))))"
    by (auto simp del: simple_block_consumer.simps)
  let ?st20 = "\<lparr>input = [Token ident_token ''a''], backlog = None,
      error = Parse_Error PARSE_ERROR_UNSET None, rec_level = 20, eof = False\<rparr>"
  have h20: "4 * budget ?st20 + 4 \<le> Suc 11"
    by (simp add: budget_def remaining_def)
  have c3: "consumed_components 11 ?st20 ecurlbrace_token
              = Some (False, \<lparr>input = [], backlog = Some (Token ident_token ''a''),
                   error = Parse_Error PARSE_ERROR_BAD_NESTING None, rec_level = 21, eof = False\<rparr>,
                 [])"
    by code_simp
  from simple_block_consume_current [OF h20 e, of "Block css_simple_block (Blocks [])"] c3
  have c: "simple_block_consumer (Suc 11) ?st20 (Block css_simple_block (Blocks []))
             ecurlbrace_token True
             = Some (False, \<lparr>input = [], backlog = Some (Token ident_token ''a''),
                   error = Parse_Error PARSE_ERROR_BAD_NESTING None, rec_level = 21, eof = False\<rparr>,
                 attach_all [] (Block css_simple_block (Blocks [])))"
    by (auto simp del: simple_block_consumer.simps)
  from a b c show ?thesis
    by (simp add: new_block_def leave_def del: simple_block_consumer.simps)
qed

end
